theory Spec2Isabelle
  imports Main "HOL-Library.Char_ord" "HOL-Library.List_Lexorder" "HOL-Library.Product_Lexorder"
begin

section \<open>Data model\<close>

text \<open>
  Stations and line identifiers are Python strings. The network is a networkx
  \<^verbatim>\<open>MultiGraph\<close>; the router only reads its adjacency structure, a dict (station) of
  dicts (neighbour) of dicts (edge key) of edge attributes, each dict in insertion order.
  It is modelled as nested association lists; \<^verbatim>\<open>G.nodes()\<close> are the outer keys and
  \<^verbatim>\<open>G[u]\<close> is a lookup that raises \<^verbatim>\<open>KeyError\<close> for a missing station. Of the edge
  attributes only \<^verbatim>\<open>line\<close> and \<^verbatim>\<open>weight\<close> are read; weights are Python integers.
\<close>

type_synonym station = string
type_synonym line_id = string
type_synonym edge_key = nat

record edge_attr =
  line :: line_id
  weight :: int

type_synonym edge_dict = "(edge_key \<times> edge_attr) list"
type_synonym adjacency = "(station \<times> edge_dict) list"
type_synonym graph = "(station \<times> adjacency) list"

datatype error = KeyError | IndexError | NetworkXNoPath

text \<open>\<^verbatim>\<open>float('infinity')\<close> or an integer distance.\<close>

datatype dist = Fin int | Infinity

fun dist_less :: "int \<Rightarrow> dist \<Rightarrow> bool" where
  "dist_less d (Fin x) = (d < x)"
| "dist_less d Infinity = True"

definition nodes :: "graph \<Rightarrow> station list" where
  "nodes G = map fst G"

definition getitem :: "('k \<times> 'v) list \<Rightarrow> 'k \<Rightarrow> error + 'v" where
  "getitem d k = (case map_of d k of None \<Rightarrow> Inl KeyError | Some v \<Rightarrow> Inr v)"

section \<open>The router\<close>

text \<open>Python truthiness of \<^verbatim>\<open>prev_line\<close>: \<^verbatim>\<open>None\<close> and the empty string are false.\<close>

fun truthy :: "line_id option \<Rightarrow> bool" where
  "truthy None = False"
| "truthy (Some l) = (l \<noteq> [])"

definition dijkstra_weight ::
  "int \<Rightarrow> station \<Rightarrow> station \<Rightarrow> edge_attr \<Rightarrow> line_id option \<Rightarrow> int" where
  "dijkstra_weight transfer_penalty u v edge_data prev_line =
     (let current_line = line edge_data;
          base_weight = weight edge_data;
          transfer_cost =
            (if truthy prev_line \<and> Some current_line \<noteq> prev_line then transfer_penalty else 0);
          bias_for_transfer =
            (if truthy prev_line \<and> Some current_line \<noteq> prev_line then 10 else 0)
      in base_weight + transfer_cost + bias_for_transfer)"

type_synonym entry = "int \<times> station \<times> line_id option"

record search_state =
  distances :: "station \<rightharpoonup> dist"
  previous :: "station \<rightharpoonup> station option"
  previous_lines :: "station \<rightharpoonup> line_id option"
  previous_edge_keys :: "station \<rightharpoonup> edge_key option"
  visited :: "station set"
  pq :: "entry list"

text \<open>
  The priority queue. \<^verbatim>\<open>heapq.heappop\<close> returns the least tuple of the heap. Tuples
  \<^verbatim>\<open>(distance, node, line)\<close> are compared component by component, and no two entries
  of the queue ever agree on distance and node (an entry for a node is pushed only with a
  distance strictly below every earlier one for that node), so the least entry is the one
  with the least \<^verbatim>\<open>(distance, node)\<close> and the line is never compared. The queue is kept
  as the list of its entries.
\<close>

definition entry_key :: "entry \<Rightarrow> int \<times> station" where
  "entry_key e = (fst e, fst (snd e))"

definition heappush :: "entry list \<Rightarrow> entry \<Rightarrow> entry list" where
  "heappush h e = h @ [e]"

definition heappop :: "entry list \<Rightarrow> entry \<times> entry list" where
  "heappop h = (let m = arg_min_list entry_key h in (m, remove1 m h))"

text \<open>The inner loop of the relaxation: every parallel edge to one neighbour.\<close>

fun relax_edges ::
  "int \<Rightarrow> int \<Rightarrow> station \<Rightarrow> line_id option \<Rightarrow> station \<Rightarrow> edge_dict \<Rightarrow> search_state
     \<Rightarrow> error + search_state" where
  "relax_edges tp current_distance current_node prev_line neighbor [] s = Inr s"
| "relax_edges tp current_distance current_node prev_line neighbor ((edge_key, edge_data) # rest) s =
     (let distance = current_distance + dijkstra_weight tp current_node neighbor edge_data prev_line
      in case distances s neighbor of
           None \<Rightarrow> Inl KeyError
         | Some dn \<Rightarrow>
             if dist_less distance dn
             then relax_edges tp current_distance current_node prev_line neighbor rest
                    (s\<lparr>distances := (distances s)(neighbor \<mapsto> Fin distance),
                       previous := (previous s)(neighbor \<mapsto> Some current_node),
                       previous_lines := (previous_lines s)(neighbor \<mapsto> Some (line edge_data)),
                       previous_edge_keys := (previous_edge_keys s)(neighbor \<mapsto> Some edge_key),
                       pq := heappush (pq s) (distance, neighbor, Some (line edge_data))\<rparr>)
             else relax_edges tp current_distance current_node prev_line neighbor rest s)"

text \<open>The state after a successful relaxation of one edge, for the lemmas below.\<close>

abbreviation relaxed ::
  "search_state \<Rightarrow> int \<Rightarrow> station \<Rightarrow> station \<Rightarrow> edge_key \<Rightarrow> edge_attr \<Rightarrow> search_state" where
  "relaxed s distance cn nb k e \<equiv>
     s\<lparr>distances := (distances s)(nb \<mapsto> Fin distance),
       previous := (previous s)(nb \<mapsto> Some cn),
       previous_lines := (previous_lines s)(nb \<mapsto> Some (line e)),
       previous_edge_keys := (previous_edge_keys s)(nb \<mapsto> Some k),
       pq := heappush (pq s) (distance, nb, Some (line e))\<rparr>"

text \<open>The outer loop of the relaxation: every neighbour of the current node.\<close>

fun relax_neighbors ::
  "int \<Rightarrow> int \<Rightarrow> station \<Rightarrow> line_id option \<Rightarrow> adjacency \<Rightarrow> search_state
     \<Rightarrow> error + search_state" where
  "relax_neighbors tp current_distance current_node prev_line [] s = Inr s"
| "relax_neighbors tp current_distance current_node prev_line ((neighbor, edges) # rest) s =
     (case relax_edges tp current_distance current_node prev_line neighbor edges s of
        Inl e \<Rightarrow> Inl e
      | Inr s' \<Rightarrow> relax_neighbors tp current_distance current_node prev_line rest s')"

text \<open>
  The main loop, \<^verbatim>\<open>while pq\<close>: pop the least entry, stop at the target, skip a settled
  node, otherwise settle it and relax all its edges.
\<close>

function dijkstra_loop :: "graph \<Rightarrow> int \<Rightarrow> station \<Rightarrow> search_state \<Rightarrow> error + search_state" where
  "dijkstra_loop G tp target s =
     (if pq s = [] then Inr s
      else
        case heappop (pq s) of ((current_distance, current_node, prev_line), rest) \<Rightarrow>
          if current_node = target then Inr (s\<lparr>pq := rest\<rparr>)
          else if current_node \<in> visited s then dijkstra_loop G tp target (s\<lparr>pq := rest\<rparr>)
          else
            case getitem G current_node of
              Inl e \<Rightarrow> Inl e
            | Inr nbrs \<Rightarrow>
                (case relax_neighbors tp current_distance current_node prev_line nbrs
                        (s\<lparr>pq := rest, visited := insert current_node (visited s)\<rparr>) of
                   Inl e \<Rightarrow> Inl e
                 | Inr s' \<Rightarrow> dijkstra_loop G tp target s'))"
  by pat_completeness auto


text \<open>
  Path reconstruction, \<^verbatim>\<open>while current is not None\<close>, walking the parent pointers.
  Nothing bounds the walk, so a run that never leaves the loop is the value \<open>None\<close>.
  The two lists are returned as built; the caller reverses them.
\<close>

partial_function (option) reconstruct ::
  "(station \<rightharpoonup> station option) \<Rightarrow> (station \<rightharpoonup> edge_key option) \<Rightarrow> station option
     \<Rightarrow> station list \<Rightarrow> edge_key option list
     \<Rightarrow> (error + station list \<times> edge_key option list) option" where
  "reconstruct prev pek current pth edge_keys =
     (case current of
        None \<Rightarrow> Some (Inr (pth, edge_keys))
      | Some c \<Rightarrow>
          (case prev c of
             None \<Rightarrow> Some (Inl KeyError)
           | Some None \<Rightarrow> reconstruct prev pek None (pth @ [c]) edge_keys
           | Some (Some p) \<Rightarrow>
               (case pek c of
                  None \<Rightarrow> Some (Inl KeyError)
                | Some k \<Rightarrow> reconstruct prev pek (Some p) (pth @ [c]) (edge_keys @ [k]))))"

declare reconstruct.simps [code]

definition initial_state :: "graph \<Rightarrow> station \<Rightarrow> search_state" where
  "initial_state G source =
     \<lparr>distances = (map_of (map (\<lambda>node. (node, Infinity)) (nodes G)))(source \<mapsto> Fin 0),
      previous = map_of (map (\<lambda>node. (node, None)) (nodes G)),
      previous_lines = map_of (map (\<lambda>node. (node, None)) (nodes G)),
      previous_edge_keys = map_of (map (\<lambda>node. (node, None)) (nodes G)),
      visited = {},
      pq = [(0, source, None)]\<rparr>"

text \<open>
  \<^verbatim>\<open>custom_fastest_path\<close>: the outer \<open>None\<close> is a run that never returns, \<open>Inl\<close> a raised
  exception, \<open>Inr\<close> the returned triple (path, line of arrival per station, edge keys).
\<close>

definition custom_fastest_path ::
  "graph \<Rightarrow> int \<Rightarrow> station \<Rightarrow> station
     \<Rightarrow> (error + station list \<times> (station \<rightharpoonup> line_id option) \<times> edge_key option list) option" where
  "custom_fastest_path G tp source target =
     (case dijkstra_loop G tp target (initial_state G source) of
        Inl e \<Rightarrow> Some (Inl e)
      | Inr s \<Rightarrow>
          (case distances s target of
             None \<Rightarrow> Some (Inl KeyError)
           | Some dt \<Rightarrow>
               if dt = Infinity then Some (Inl NetworkXNoPath)
               else
                 (case reconstruct (previous s) (previous_edge_keys s) (Some target) [] [] of
                    None \<Rightarrow> None
                  | Some (Inl e) \<Rightarrow> Some (Inl e)
                  | Some (Inr (pth, edge_keys)) \<Rightarrow>
                      Some (Inr (rev pth, previous_lines s, rev edge_keys)))))"

section \<open>The route summary\<close>

record segment =
  from_station :: station
  to_station :: "station option"
  seg_line :: "line_id option"
  time :: int

record route =
  path :: "station list"
  lines_used :: "line_id option list"
  transfers :: "station list"
  num_transfers :: nat
  total_stations :: nat
  total_time :: int
  travel_time :: int
  transfer_time :: int
  segments :: "segment list"

text \<open>The local variables of the summary loop.\<close>

record summary =
  acc_lines_used :: "line_id option list"
  acc_current_line :: "line_id option"
  acc_transfers :: "station list"
  acc_total_time :: int
  acc_segments :: "segment list"

text \<open>\<^verbatim>\<open>segments[-1][k] = v\<close>, always under \<^verbatim>\<open>if segments\<close>.\<close>

definition update_last :: "('a \<Rightarrow> 'a) \<Rightarrow> 'a list \<Rightarrow> 'a list" where
  "update_last f xs = (if xs = [] then xs else butlast xs @ [f (last xs)])"

text \<open>One iteration of \<^verbatim>\<open>for i in range(len(path) - 1)\<close>.\<close>

definition summarize_step ::
  "graph \<Rightarrow> int \<Rightarrow> station list \<Rightarrow> (station \<rightharpoonup> line_id option) \<Rightarrow> edge_key option list
     \<Rightarrow> nat \<Rightarrow> summary \<Rightarrow> error + summary" where
  "summarize_step G tp pth line_changes edge_keys i st =
     (if length pth \<le> i + 1 then Inl IndexError
      else
        case getitem G (pth ! i) of
          Inl e \<Rightarrow> Inl e
        | Inr adj \<Rightarrow>
        case getitem adj (pth ! (i + 1)) of
          Inl e \<Rightarrow> Inl e
        | Inr edges \<Rightarrow>
        if length edge_keys \<le> i then Inl IndexError
        else
        case edge_keys ! i of
          None \<Rightarrow> Inl KeyError
        | Some k \<Rightarrow>
        case getitem edges k of
          Inl e \<Rightarrow> Inl e
        | Inr edge_data \<Rightarrow>
        case line_changes (pth ! (i + 1)) of
          None \<Rightarrow> Inl KeyError
        | Some next_line \<Rightarrow>
            let segment_time = weight edge_data;
                st1 = st\<lparr>acc_total_time := acc_total_time st + segment_time\<rparr>;
                st2 =
                  (if next_line \<noteq> acc_current_line st1
                   then
                     let st' =
                       (if acc_current_line st1 \<noteq> None
                        then st1\<lparr>acc_transfers := acc_transfers st1 @ [pth ! i],
                                 acc_total_time := acc_total_time st1 + tp,
                                 acc_segments :=
                                   update_last (\<lambda>g. g\<lparr>to_station := Some (pth ! i)\<rparr>)
                                     (acc_segments st1)\<rparr>
                        else st1)
                     in st'\<lparr>acc_current_line := next_line,
                            acc_lines_used := acc_lines_used st' @ [next_line],
                            acc_segments := acc_segments st' @
                              [\<lparr>from_station = pth ! i, to_station = None,
                                seg_line = next_line, time = 0\<rparr>]\<rparr>
                   else st1)
            in Inr (st2\<lparr>acc_segments :=
                          update_last (\<lambda>g. g\<lparr>time := time g + segment_time\<rparr>)
                            (acc_segments st2)\<rparr>))"

fun summarize_loop ::
  "graph \<Rightarrow> int \<Rightarrow> station list \<Rightarrow> (station \<rightharpoonup> line_id option) \<Rightarrow> edge_key option list
     \<Rightarrow> nat list \<Rightarrow> summary \<Rightarrow> error + summary" where
  "summarize_loop G tp pth line_changes edge_keys [] st = Inr st"
| "summarize_loop G tp pth line_changes edge_keys (i # rest) st =
     (case summarize_step G tp pth line_changes edge_keys i st of
        Inl e \<Rightarrow> Inl e
      | Inr st' \<Rightarrow> summarize_loop G tp pth line_changes edge_keys rest st')"

definition initial_summary :: summary where
  "initial_summary =
     \<lparr>acc_lines_used = [], acc_current_line = None, acc_transfers = [],
      acc_total_time = 0, acc_segments = []\<rparr>"

text \<open>The code after the loop: close the final segment and build the result.\<close>

definition make_route :: "int \<Rightarrow> station list \<Rightarrow> summary \<Rightarrow> error + route" where
  "make_route tp pth st =
     (if acc_segments st \<noteq> [] \<and> pth = [] then Inl IndexError
      else
        Inr \<lparr>path = pth,
             lines_used = acc_lines_used st,
             transfers = acc_transfers st,
             num_transfers = length (acc_transfers st),
             total_stations = length pth,
             total_time = acc_total_time st,
             travel_time = acc_total_time st - int (length (acc_transfers st)) * tp,
             transfer_time = int (length (acc_transfers st)) * tp,
             segments = update_last (\<lambda>g. g\<lparr>to_station := Some (last pth)\<rparr>) (acc_segments st)\<rparr>)"

text \<open>\<^verbatim>\<open>except nx.NetworkXNoPath: return None\<close>; every other exception propagates.\<close>

definition catch_no_path :: "error + route \<Rightarrow> error + route option" where
  "catch_no_path r =
     (case r of
        Inl e \<Rightarrow> if e = NetworkXNoPath then Inr None else Inl e
      | Inr x \<Rightarrow> Inr (Some x))"

text \<open>
  \<^verbatim>\<open>find_fastest_route\<close>: the outer \<open>None\<close> is a run that never returns, \<open>Inl\<close> an
  exception that leaves the function, \<open>Inr None\<close> the returned \<^verbatim>\<open>None\<close>, and
  \<open>Inr (Some r)\<close> the returned route.
\<close>

definition find_fastest_route ::
  "graph \<Rightarrow> station \<Rightarrow> station \<Rightarrow> int \<Rightarrow> (error + route option) option" where
  "find_fastest_route G origin destination transfer_penalty =
     (case custom_fastest_path G transfer_penalty origin destination of
        None \<Rightarrow> None
      | Some (Inl e) \<Rightarrow> Some (catch_no_path (Inl e))
      | Some (Inr (pth, line_changes, edge_keys)) \<Rightarrow>
          Some (catch_no_path
            (case summarize_loop G transfer_penalty pth line_changes edge_keys
                    [0 ..< length pth - 1] initial_summary of
               Inl e \<Rightarrow> Inl e
             | Inr st \<Rightarrow> make_route transfer_penalty pth st)))"

section \<open>Trip classification and remapping\<close>

text \<open>A returned \<^verbatim>\<open>None\<close> (the function falls off its end) is \<open>None\<close>.\<close>

definition get_path_type ::
  "station \<Rightarrow> station \<Rightarrow> station list \<Rightarrow> station list \<Rightarrow> string option" where
  "get_path_type origin destination closed_stations pth =
     (if origin \<in> set closed_stations \<and> destination \<notin> set closed_stations
        then Some ''Origin trip''
      else if origin \<notin> set closed_stations \<and> destination \<in> set closed_stations
        then Some ''Destination trip''
      else if origin \<in> set closed_stations \<and> destination \<in> set closed_stations
        then Some ''Internal trip''
      else if list_ex (\<lambda>station. station \<in> set closed_stations) pth
        then Some ''Passing trip''
      else None)"

text \<open>
  The scan \<^verbatim>\<open>for station in path: if station == ib: return ib; elif station == ob: return ob\<close>,
  which all four remapping branches share.
\<close>

fun scan_boundary :: "station \<Rightarrow> station \<Rightarrow> station list \<Rightarrow> station option" where
  "scan_boundary ib_boubndary_station ob_boundary_station [] = None"
| "scan_boundary ib_boubndary_station ob_boundary_station (station # rest) =
     (if station = ib_boubndary_station then Some ib_boubndary_station
      else if station = ob_boundary_station then Some ob_boundary_station
      else scan_boundary ib_boubndary_station ob_boundary_station rest)"

definition calculate_origin_station ::
  "string option \<Rightarrow> station \<Rightarrow> station \<Rightarrow> station \<Rightarrow> station list \<Rightarrow> station option" where
  "calculate_origin_station path_type origin ib_boubndary_station ob_boundary_station pth =
     (if path_type = Some ''Origin trip'' then Some origin
      else if path_type = Some ''Destination trip''
        then scan_boundary ib_boubndary_station ob_boundary_station pth
      else if path_type = Some ''Internal trip'' then Some origin
      else if path_type = Some ''Passing trip''
        then scan_boundary ib_boubndary_station ob_boundary_station pth
      else None)"

definition calculate_destination_station ::
  "string option \<Rightarrow> station \<Rightarrow> station \<Rightarrow> station \<Rightarrow> station list \<Rightarrow> station option" where
  "calculate_destination_station path_type destination ib_boubndary_station ob_boundary_station pth =
     (if path_type = Some ''Destination trip'' then Some destination
      else if path_type = Some ''Origin trip''
        then scan_boundary ib_boubndary_station ob_boundary_station (rev pth)
      else if path_type = Some ''Internal trip'' then Some destination
      else if path_type = Some ''Passing trip''
        then scan_boundary ib_boubndary_station ob_boundary_station (rev pth)
      else None)"

text \<open>The scan \<^verbatim>\<open>for station in path: if station in closed_stations: return station\<close>.\<close>

fun scan_closed :: "station list \<Rightarrow> station list \<Rightarrow> station option" where
  "scan_closed closed_stations [] = None"
| "scan_closed closed_stations (station # rest) =
     (if station \<in> set closed_stations then Some station
      else scan_closed closed_stations rest)"

definition origin_station_if_none ::
  "station option \<Rightarrow> station list \<Rightarrow> station list \<Rightarrow> station option" where
  "origin_station_if_none new_origin pth closed_stations =
     (if new_origin = None
      then (case scan_closed closed_stations pth of
              Some station \<Rightarrow> Some station
            | None \<Rightarrow> new_origin)
      else new_origin)"

definition destination_station_if_none ::
  "station option \<Rightarrow> station list \<Rightarrow> station list \<Rightarrow> station option" where
  "destination_station_if_none new_destination pth closed_stations =
     (if new_destination = None
      then (case scan_closed closed_stations (rev pth) of
              Some station \<Rightarrow> Some station
            | None \<Rightarrow> new_destination)
      else new_destination)"

section \<open>Example networks\<close>

text \<open>
  Stations A, B, C in a chain on Line 1 and C, D, E in a chain on Line 2, every hop of
  cost 100, as \<^verbatim>\<open>add_node\<close> for A to E followed by \<^verbatim>\<open>add_edge\<close> along each line
  builds the adjacency of an undirected multigraph (each edge under both endpoints, the
  first edge of a pair under key 0).
\<close>

definition on_line :: "line_id \<Rightarrow> int \<Rightarrow> edge_attr" where
  "on_line l w = \<lparr>line = l, weight = w\<rparr>"

definition two_line_network :: graph where
  "two_line_network =
     [(''A'', [(''B'', [(0, on_line ''Line 1'' 100)])]),
      (''B'', [(''A'', [(0, on_line ''Line 1'' 100)]), (''C'', [(0, on_line ''Line 1'' 100)])]),
      (''C'', [(''B'', [(0, on_line ''Line 1'' 100)]), (''D'', [(0, on_line ''Line 2'' 100)])]),
      (''D'', [(''C'', [(0, on_line ''Line 2'' 100)]), (''E'', [(0, on_line ''Line 2'' 100)])]),
      (''E'', [(''D'', [(0, on_line ''Line 2'' 100)])])]"

section \<open>Vocabulary of the proofs\<close>

text \<open>
  The edge that the summary reads for hop \<open>i\<close> of a path,
  \<^verbatim>\<open>G[path[i]][path[i + 1]][edge_keys[i]]\<close>, when every lookup succeeds.
\<close>

definition traversed_edge :: "graph \<Rightarrow> station list \<Rightarrow> edge_key option list \<Rightarrow> nat \<Rightarrow> edge_attr option" where
  "traversed_edge G pth edge_keys i =
     (if length pth \<le> i + 1 \<or> length edge_keys \<le> i then None
      else
        case map_of G (pth ! i) of
          None \<Rightarrow> None
        | Some adj \<Rightarrow>
            (case map_of adj (pth ! (i + 1)) of
               None \<Rightarrow> None
             | Some edges \<Rightarrow>
                 (case edge_keys ! i of
                    None \<Rightarrow> None
                  | Some k \<Rightarrow> map_of edges k)))"

text \<open>
  The assignments of one iteration of the summary loop, for a hop leaving station \<open>x\<close>
  with edge weight \<open>segment_time\<close> on line \<open>next_line\<close>.
\<close>

definition summary_update :: "int \<Rightarrow> station \<Rightarrow> int \<Rightarrow> line_id option \<Rightarrow> summary \<Rightarrow> summary" where
  "summary_update tp x segment_time next_line st =
     (let st1 = st\<lparr>acc_total_time := acc_total_time st + segment_time\<rparr>;
          st2 =
            (if next_line \<noteq> acc_current_line st1
             then
               let st' =
                 (if acc_current_line st1 \<noteq> None
                  then st1\<lparr>acc_transfers := acc_transfers st1 @ [x],
                           acc_total_time := acc_total_time st1 + tp,
                           acc_segments :=
                             update_last (\<lambda>g. g\<lparr>to_station := Some x\<rparr>)
                               (acc_segments st1)\<rparr>
                  else st1)
               in st'\<lparr>acc_current_line := next_line,
                      acc_lines_used := acc_lines_used st' @ [next_line],
                      acc_segments := acc_segments st' @
                        [\<lparr>from_station = x, to_station = None,
                          seg_line = next_line, time = 0\<rparr>]\<rparr>
             else st1)
      in st2\<lparr>acc_segments :=
                update_last (\<lambda>g. g\<lparr>time := time g + segment_time\<rparr>)
                  (acc_segments st2)\<rparr>)"

text \<open>The state of the summary loop once its first segment is open.\<close>

definition seg_inv :: "int \<Rightarrow> station \<Rightarrow> summary \<Rightarrow> bool" where
  "seg_inv tp x0 st \<longleftrightarrow>
     acc_segments st \<noteq> [] \<and> acc_current_line st \<noteq> None
     \<and> length (acc_segments st) = length (acc_transfers st) + 1
     \<and> length (acc_lines_used st) = length (acc_segments st)
     \<and> (\<forall>g \<in> set (butlast (acc_segments st)). to_station g \<noteq> None)
     \<and> from_station (hd (acc_segments st)) = x0
     \<and> sum_list (map time (acc_segments st))
         = acc_total_time st - int (length (acc_transfers st)) * tp"


text \<open>
  The parent pointers lead from \<open>c\<close> to a station without parent: the stations on
  the way, \<open>c\<close> first, and the edge keys recorded for them.
\<close>

inductive chain ::
  "(station \<rightharpoonup> station option) \<Rightarrow> (station \<rightharpoonup> edge_key option) \<Rightarrow> station
     \<Rightarrow> station list \<Rightarrow> edge_key option list \<Rightarrow> bool"
  for prev pek where
  root: "prev c = Some None \<Longrightarrow> chain prev pek c [c] []"
| link: "prev c = Some (Some u) \<Longrightarrow> pek c = Some k \<Longrightarrow> chain prev pek u ps ks
         \<Longrightarrow> chain prev pek c (c # ps) (k # ks)"

text \<open>A station with a parent has the line of its arrival recorded.\<close>

definition lines_inv :: "search_state \<Rightarrow> bool" where
  "lines_inv s \<longleftrightarrow>
     (\<forall>n u. previous s n = Some (Some u) \<longrightarrow> (\<exists>l. previous_lines s n = Some (Some l)))"

text \<open>
  The representation invariant of a networkx multigraph: the keys of every dict are
  distinct, and every neighbour is a station of the graph.
\<close>

definition multigraph :: "graph \<Rightarrow> bool" where
  "multigraph G \<longleftrightarrow>
     distinct (map fst G)
     \<and> (\<forall>(u, adj) \<in> set G.
           distinct (map fst adj)
           \<and> (\<forall>(v, edges) \<in> set adj. v \<in> set (nodes G) \<and> distinct (map fst edges)))"

text \<open>Two stations are adjacent when \<^verbatim>\<open>G[u][v]\<close> exists and holds an edge.\<close>

definition adjacent :: "graph \<Rightarrow> station \<Rightarrow> station \<Rightarrow> bool" where
  "adjacent G u v =
     (case map_of G u of
        None \<Rightarrow> False
      | Some adj \<Rightarrow> (case map_of adj v of None \<Rightarrow> False | Some edges \<Rightarrow> edges \<noteq> []))"

text \<open>A walk: a non-empty list of stations of the graph, each adjacent to the next.\<close>

fun walk :: "graph \<Rightarrow> station list \<Rightarrow> bool" where
  "walk G [] = False"
| "walk G [u] = (u \<in> set (nodes G))"
| "walk G (u # v # rest) = (adjacent G u v \<and> walk G (v # rest))"

text \<open>Every station has a distance entry, and the queue holds stations only.\<close>

definition keys_inv :: "graph \<Rightarrow> search_state \<Rightarrow> bool" where
  "keys_inv G s \<longleftrightarrow>
     set (nodes G) \<subseteq> dom (distances s) \<and> (\<forall>e \<in> set (pq s). fst (snd e) \<in> set (nodes G))"

text \<open>A finite distance, or an entry in the queue, comes with a walk from the source.\<close>

definition reach_inv :: "graph \<Rightarrow> station \<Rightarrow> search_state \<Rightarrow> bool" where
  "reach_inv G source s \<longleftrightarrow>
     (\<forall>n x. distances s n = Some (Fin x) \<longrightarrow> (\<exists>p. walk G p \<and> hd p = source \<and> last p = n))
     \<and> (\<forall>e \<in> set (pq s). \<exists>p. walk G p \<and> hd p = source \<and> last p = fst (snd e))"

text \<open>The two-line network with one more station, F, that no segment touches.\<close>

definition two_line_network_F :: graph where
  "two_line_network_F = two_line_network @ [(''F'', [])]"


text \<open>
  A network with a hub X: line L1 from S to X (100), line L2 from S to M (10), line L3
  from M over X to T (20 and 100), line L4 from X to Y (1) and line L5 from Y to T (1).
\<close>

definition hub_network :: graph where
  "hub_network =
     [(''S'', [(''X'', [(0, on_line ''L1'' 100)]), (''M'', [(0, on_line ''L2'' 10)])]),
      (''M'', [(''S'', [(0, on_line ''L2'' 10)]), (''X'', [(0, on_line ''L3'' 20)])]),
      (''X'', [(''S'', [(0, on_line ''L1'' 100)]), (''M'', [(0, on_line ''L3'' 20)]),
               (''T'', [(0, on_line ''L3'' 100)]), (''Y'', [(0, on_line ''L4'' 1)])]),
      (''Y'', [(''X'', [(0, on_line ''L4'' 1)]), (''T'', [(0, on_line ''L5'' 1)])]),
      (''T'', [(''X'', [(0, on_line ''L3'' 100)]), (''Y'', [(0, on_line ''L5'' 1)])])]"

text \<open>The number of transfers of the returned route, when a route is returned.\<close>

definition route_transfers :: "(error + route option) option \<Rightarrow> nat option" where
  "route_transfers res =
     (case res of Some (Inr (Some r)) \<Rightarrow> Some (num_transfers r) | _ \<Rightarrow> None)"

text \<open>The returned route, when a route is returned.\<close>

definition returned_route :: "(error + route option) option \<Rightarrow> route option" where
  "returned_route res = (case res of Some (Inr (Some r)) \<Rightarrow> Some r | _ \<Rightarrow> None)"

text \<open>
  The second half of \<^verbatim>\<open>find_fastest_route\<close> on its own: the summary loop and the
  result dict for a given path, line of arrival per station and edge keys.
\<close>

definition summarize_path ::
  "graph \<Rightarrow> int \<Rightarrow> station list \<Rightarrow> (station \<rightharpoonup> line_id option) \<Rightarrow> edge_key option list
     \<Rightarrow> error + route" where
  "summarize_path G tp pth line_changes edge_keys =
     (case summarize_loop G tp pth line_changes edge_keys [0 ..< length pth - 1] initial_summary of
        Inl e \<Rightarrow> Inl e
      | Inr st \<Rightarrow> make_route tp pth st)"

text \<open>On the hub network, the lines of arrival along the route S, M, X, T.\<close>

definition hub_lines_over_M :: "station \<rightharpoonup> line_id option" where
  "hub_lines_over_M = [''M'' \<mapsto> Some ''L2'', ''X'' \<mapsto> Some ''L3'', ''T'' \<mapsto> Some ''L3'']"

text \<open>Every edge has a non-negative weight (the cost of a segment is never negative).\<close>

definition nonneg_weights :: "graph \<Rightarrow> bool" where
  "nonneg_weights G \<longleftrightarrow>
     (\<forall>(u, adj) \<in> set G. \<forall>(v, edges) \<in> set adj. \<forall>(k, e) \<in> set edges. 0 \<le> weight e)"

text \<open>
  A station with a parent has an edge key recorded, and \<^verbatim>\<open>G[parent][station][key]\<close>
  exists.
\<close>

definition edge_inv :: "graph \<Rightarrow> search_state \<Rightarrow> bool" where
  "edge_inv G s \<longleftrightarrow>
     (\<forall>n u. previous s n = Some (Some u) \<longrightarrow>
        (\<exists>k adj edges e. previous_edge_keys s n = Some (Some k) \<and> map_of G u = Some adj
           \<and> map_of adj n = Some edges \<and> map_of edges k = Some e))"

text \<open>The distance of a station is a number, not infinity.\<close>

definition finite_dist :: "search_state \<Rightarrow> station \<Rightarrow> bool" where
  "finite_dist s n \<longleftrightarrow> (\<exists>x. distances s n = Some (Fin x))"

text \<open>A station with a finite distance is settled or waits in the queue.\<close>

definition front_inv :: "search_state \<Rightarrow> bool" where
  "front_inv s \<longleftrightarrow>
     (\<forall>n. finite_dist s n \<longrightarrow> n \<in> visited s \<or> n \<in> (\<lambda>e. fst (snd e)) ` set (pq s))"

text \<open>Every neighbour of a settled station has a finite distance.\<close>

definition closed_inv :: "graph \<Rightarrow> search_state \<Rightarrow> bool" where
  "closed_inv G s \<longleftrightarrow> (\<forall>u \<in> visited s. \<forall>v. adjacent G u v \<longrightarrow> finite_dist s v)"

text \<open>
  With non-negative costs: the source keeps distance 0 and no parent; an entry of the
  queue is non-negative, not below the distance of its station, and its station is the
  source or has a parent; a parent is settled; and the parent pointers lead from every
  settled station to the source through settled stations.
\<close>

definition tree_inv :: "station \<Rightarrow> search_state \<Rightarrow> bool" where
  "tree_inv source s \<longleftrightarrow>
     distances s source = Some (Fin 0) \<and> previous s source = Some None
     \<and> (\<forall>e \<in> set (pq s).
           0 \<le> fst e
           \<and> (\<exists>x. distances s (fst (snd e)) = Some (Fin x) \<and> x \<le> fst e)
           \<and> (fst (snd e) = source \<or> (\<exists>u. previous s (fst (snd e)) = Some (Some u))))
     \<and> (\<forall>n u. previous s n = Some (Some u) \<longrightarrow>
           u \<in> visited s \<and> (\<exists>k. previous_edge_keys s n = Some k))
     \<and> (\<forall>n \<in> visited s. \<exists>ps ks.
           chain (previous s) (previous_edge_keys s) n ps ks \<and> last ps = source
           \<and> set ps \<subseteq> visited s)"

text \<open>The distance of a settled station is at most every distance in the queue.\<close>

definition settled_inv :: "search_state \<Rightarrow> bool" where
  "settled_inv s \<longleftrightarrow>
     (\<forall>n \<in> visited s. \<forall>e \<in> set (pq s). \<exists>x. distances s n = Some (Fin x) \<and> x \<le> fst e)"

text \<open>
  While the edges of a station popped at distance \<open>cd\<close> are relaxed: settled distances
  are at most \<open>cd\<close>, and the queue holds nothing below \<open>cd\<close>.
\<close>

definition bound_inv :: "int \<Rightarrow> search_state \<Rightarrow> bool" where
  "bound_inv cd s \<longleftrightarrow>
     0 \<le> cd
     \<and> (\<forall>n \<in> visited s. \<exists>x. distances s n = Some (Fin x) \<and> x \<le> cd)
     \<and> (\<forall>e \<in> set (pq s). cd \<le> fst e)"

text \<open>The invariant of the main loop on a well-formed graph with non-negative costs.\<close>

definition search_inv :: "graph \<Rightarrow> station \<Rightarrow> search_state \<Rightarrow> bool" where
  "search_inv G source s \<longleftrightarrow>
     tree_inv source s \<and> settled_inv s \<and> front_inv s \<and> closed_inv G s"

text \<open>
  No two entries of the queue agree on distance and station, and no entry is below the
  distance of its station.
\<close>

definition heap_keys_inv :: "search_state \<Rightarrow> bool" where
  "heap_keys_inv s \<longleftrightarrow>
     distinct (map entry_key (pq s))
     \<and> (\<forall>e \<in> set (pq s). \<exists>x. distances s (fst (snd e)) = Some (Fin x) \<and> x \<le> fst e)"

text \<open>A chain A, B, C on one line whose first segment has the cost -1.\<close>

definition negative_cost_network :: graph where
  "negative_cost_network =
     [(''A'', [(''B'', [(0, on_line ''Line 1'' (- 1))])]),
      (''B'', [(''A'', [(0, on_line ''Line 1'' (- 1))]), (''C'', [(0, on_line ''Line 1'' 1)])]),
      (''C'', [(''B'', [(0, on_line ''Line 1'' 1)])])]"

text \<open>The route of the query from A to E on the two-line network with the default penalty 900.\<close>

definition two_line_route_900 :: route where
  "two_line_route_900 =
     \<lparr>path = [''A'', ''B'', ''C'', ''D'', ''E''],
      lines_used = [Some ''Line 1'', Some ''Line 2''],
      transfers = [''C''], num_transfers = 1, total_stations = 5,
      total_time = 1300, travel_time = 400, transfer_time = 900,
      segments =
        [\<lparr>from_station = ''A'', to_station = Some ''C'', seg_line = Some ''Line 1'', time = 200\<rparr>,
         \<lparr>from_station = ''C'', to_station = Some ''E'', seg_line = Some ''Line 2'', time = 200\<rparr>]\<rparr>"


section \<open>Termination of the main loop\<close>

lemma relax_edges_visited:
  "relax_edges tp cd cn pl nb es s = Inr s' \<Longrightarrow> visited s' = visited s"
  by (induction es arbitrary: s) (auto simp: Let_def split: option.splits if_splits)

lemma relax_neighbors_visited:
  "relax_neighbors tp cd cn pl nbrs s = Inr s' \<Longrightarrow> visited s' = visited s"
proof (induction nbrs arbitrary: s)
  case Nil
  then show ?case by simp
next
  case (Cons a nbrs)
  obtain nb es where a: "a = (nb, es)" by (cases a)
  from Cons.prems a obtain s1 where
    1: "relax_edges tp cd cn pl nb es s = Inr s1" and
    2: "relax_neighbors tp cd cn pl nbrs s1 = Inr s'"
    by (auto split: sum.splits)
  from Cons.IH [OF 2] relax_edges_visited [OF 1] show ?case by simp
qed

lemma length_remove1_arg_min:
  "h \<noteq> [] \<Longrightarrow> length (remove1 (arg_min_list f h) h) < length h"
  by (simp add: arg_min_list_in length_remove1)

lemma getitem_Inr_in_nodes: "getitem G u = Inr nbrs \<Longrightarrow> u \<in> set (nodes G)"
  by (auto simp: getitem_def nodes_def split: option.splits dest: map_of_SomeD intro: rev_image_eqI)

termination dijkstra_loop
proof (relation "measures [\<lambda>(G, tp, target, s). card (set (nodes G) - visited s),
                            \<lambda>(G, tp, target, s). length (pq s)]", goal_cases)
  case 1
  show ?case by simp
next
  case (2 G tp target s e rest cd rest' cn pl)
  then show ?case
    by (auto simp: heappop_def Let_def length_remove1_arg_min)
next
  case (3 G tp target s e rest cd rest' cn pl nbrs s')
  then have v: "visited s' = insert cn (visited s)"
    by (auto dest: relax_neighbors_visited)
  from 3 have "cn \<in> set (nodes G)" by (auto dest: getitem_Inr_in_nodes)
  with 3 have "card (set (nodes G) - insert cn (visited s)) < card (set (nodes G) - visited s)"
    by (intro psubset_card_mono) auto
  with v show ?case by simp
qed

declare dijkstra_loop.simps [simp del]

section \<open>Invariant rules for the loops\<close>

lemma relax_edges_rule:
  assumes "relax_edges tp cd cn pl nb es s = Inr s'"
    and "I s"
    and "\<And>s k e dn. I s \<Longrightarrow> (k, e) \<in> set es \<Longrightarrow> distances s nb = Some dn \<Longrightarrow>
           dist_less (cd + dijkstra_weight tp cn nb e pl) dn \<Longrightarrow>
           I (relaxed s (cd + dijkstra_weight tp cn nb e pl) cn nb k e)"
  shows "I s'"
  using assms
proof (induction es arbitrary: s)
  case Nil
  then show ?case by simp
next
  case (Cons a es)
  obtain k e where a: "a = (k, e)" by (cases a)
  from Cons.prems(1) a obtain dn where dn: "distances s nb = Some dn"
    by (auto simp: Let_def split: option.splits)
  show ?case
  proof (cases "dist_less (cd + dijkstra_weight tp cn nb e pl) dn")
    case True
    with Cons.prems(1) a dn
    have r: "relax_edges tp cd cn pl nb es (relaxed s (cd + dijkstra_weight tp cn nb e pl) cn nb k e) = Inr s'"
      by (simp add: Let_def)
    have "I (relaxed s (cd + dijkstra_weight tp cn nb e pl) cn nb k e)"
      by (rule Cons.prems(3) [OF Cons.prems(2) _ dn True]) (simp add: a)
    with r show ?thesis
      using Cons.prems(3) by (intro Cons.IH) auto
  next
    case False
    with Cons.prems(1) a dn have "relax_edges tp cd cn pl nb es s = Inr s'"
      by (simp add: Let_def)
    then show ?thesis using Cons.prems(2,3) by (intro Cons.IH) auto
  qed
qed

lemma relax_neighbors_rule:
  assumes "relax_neighbors tp cd cn pl nbrs s = Inr s'"
    and "I s"
    and "\<And>s nb es k e dn. I s \<Longrightarrow> (nb, es) \<in> set nbrs \<Longrightarrow> (k, e) \<in> set es \<Longrightarrow>
           distances s nb = Some dn \<Longrightarrow>
           dist_less (cd + dijkstra_weight tp cn nb e pl) dn \<Longrightarrow>
           I (relaxed s (cd + dijkstra_weight tp cn nb e pl) cn nb k e)"
  shows "I s'"
  using assms
proof (induction nbrs arbitrary: s)
  case Nil
  then show ?case by simp
next
  case (Cons a nbrs)
  obtain nb es where a: "a = (nb, es)" by (cases a)
  from Cons.prems(1) a obtain s1 where
    1: "relax_edges tp cd cn pl nb es s = Inr s1" and
    2: "relax_neighbors tp cd cn pl nbrs s1 = Inr s'"
    by (auto split: sum.splits)
  have "I s1"
    using 1 Cons.prems(2)
  proof (rule relax_edges_rule)
    fix s k e dn
    assume "I s" "(k, e) \<in> set es" "distances s nb = Some dn"
      "dist_less (cd + dijkstra_weight tp cn nb e pl) dn"
    then show "I (relaxed s (cd + dijkstra_weight tp cn nb e pl) cn nb k e)"
      by (intro Cons.prems(3) [where nb = nb and es = es]) (simp_all add: a)
  qed
  with 2 show ?case
  proof (rule Cons.IH)
    fix s nb es k e dn
    assume "I s" "(nb, es) \<in> set nbrs" "(k, e) \<in> set es" "distances s nb = Some dn"
      "dist_less (cd + dijkstra_weight tp cn nb e pl) dn"
    then show "I (relaxed s (cd + dijkstra_weight tp cn nb e pl) cn nb k e)"
      by (intro Cons.prems(3) [where nb = nb and es = es]) simp_all
  qed
qed

lemma dijkstra_loop_rule:
  assumes "dijkstra_loop G tp target s = Inr s'"
    and "I s"
    and "\<And>s. I s \<Longrightarrow> pq s = [] \<Longrightarrow> Q s"
    and "\<And>s cd pl rest. I s \<Longrightarrow> pq s \<noteq> [] \<Longrightarrow> heappop (pq s) = ((cd, target, pl), rest) \<Longrightarrow>
           Q (s\<lparr>pq := rest\<rparr>)"
    and "\<And>s cd cn pl rest. I s \<Longrightarrow> pq s \<noteq> [] \<Longrightarrow> heappop (pq s) = ((cd, cn, pl), rest) \<Longrightarrow>
           cn \<noteq> target \<Longrightarrow> cn \<in> visited s \<Longrightarrow> I (s\<lparr>pq := rest\<rparr>)"
    and "\<And>s cd cn pl rest nbrs s1. I s \<Longrightarrow> pq s \<noteq> [] \<Longrightarrow>
           heappop (pq s) = ((cd, cn, pl), rest) \<Longrightarrow> cn \<noteq> target \<Longrightarrow> cn \<notin> visited s \<Longrightarrow>
           getitem G cn = Inr nbrs \<Longrightarrow>
           relax_neighbors tp cd cn pl nbrs (s\<lparr>pq := rest, visited := insert cn (visited s)\<rparr>) = Inr s1 \<Longrightarrow>
           I s1"
  shows "Q s'"
  using assms
proof (induction G tp target s rule: dijkstra_loop.induct)
  case (1 G tp target s)
  note res = "1.prems"(1) and I = "1.prems"(2) and ex = "1.prems"(3) and brk = "1.prems"(4)
    and cont = "1.prems"(5) and visit = "1.prems"(6)
  show ?case
  proof (cases "pq s = []")
    case True
    with res have "s' = s" by (subst (asm) dijkstra_loop.simps) simp
    with ex [OF I True] show ?thesis by simp
  next
    case False
    obtain cd cn pl rest where pop: "heappop (pq s) = ((cd, cn, pl), rest)"
      by (metis prod_cases3 surj_pair)
    show ?thesis
    proof (cases "cn = target")
      case True
      with res False pop have "s' = s\<lparr>pq := rest\<rparr>"
        by (subst (asm) dijkstra_loop.simps) simp
      with brk [OF I False pop [unfolded True]] show ?thesis by simp
    next
      case nt: False
      show ?thesis
      proof (cases "cn \<in> visited s")
        case True
        with res False pop nt have r: "dijkstra_loop G tp target (s\<lparr>pq := rest\<rparr>) = Inr s'"
          by (subst (asm) dijkstra_loop.simps) simp
        have "I (s\<lparr>pq := rest\<rparr>)" by (rule cont [OF I False pop nt True])
        from "1.IH"(1) [OF False pop [symmetric] refl refl nt True r this ex brk cont visit]
        show ?thesis .
      next
        case nv: False
        from res False pop nt nv obtain nbrs s1 where
          g: "getitem G cn = Inr nbrs" and
          rl: "relax_neighbors tp cd cn pl nbrs (s\<lparr>pq := rest, visited := insert cn (visited s)\<rparr>) = Inr s1" and
          r: "dijkstra_loop G tp target s1 = Inr s'"
          by (subst (asm) dijkstra_loop.simps) (auto split: sum.splits)
        have "I s1" by (rule visit [OF I False pop nt nv g rl])
        from "1.IH"(2) [OF False pop [symmetric] refl refl nt nv g rl r this ex brk cont visit]
        show ?thesis .
      qed
    qed
  qed
qed

section \<open>Same-station queries\<close>

lemma map_of_const_in: "x \<in> set xs \<Longrightarrow> map_of (map (\<lambda>n. (n, c)) xs) x = Some c"
  by (induction xs) auto

lemma map_of_const_notin: "x \<notin> set xs \<Longrightarrow> map_of (map (\<lambda>n. (n, c)) xs) x = None"
  by (induction xs) auto

lemma dijkstra_loop_same:
  "dijkstra_loop G tp s (initial_state G s) = Inr ((initial_state G s)\<lparr>pq := []\<rparr>)"
  by (subst dijkstra_loop.simps) (simp add: initial_state_def heappop_def)

text \<open>
  C4: for every station \<open>s\<close> of the network, the query from \<open>s\<close> to \<open>s\<close> returns the
  route with path \<open>[s]\<close>, total, travel and transfer time 0, no transfers
  (\<open>num_transfers = 0\<close>), and no lines and no segments.
\<close>

theorem same_station_route:
  assumes "s \<in> set (nodes G)"
  shows "find_fastest_route G s s tp =
    Some (Inr (Some \<lparr>path = [s], lines_used = [], transfers = [], num_transfers = 0,
                     total_stations = 1, total_time = 0, travel_time = 0, transfer_time = 0,
                     segments = []\<rparr>))"
proof -
  let ?s0 = "initial_state G s"
  have prev: "previous ?s0 s = Some None"
    using assms by (simp add: initial_state_def map_of_const_in)
  have dist: "distances ?s0 s = Some (Fin 0)"
    by (simp add: initial_state_def)
  have rec: "reconstruct (previous ?s0) (previous_edge_keys ?s0) (Some s) [] [] = Some (Inr ([s], []))"
    using prev by (simp add: reconstruct.simps)
  have "custom_fastest_path G tp s s = Some (Inr ([s], previous_lines ?s0, []))"
    using dist rec by (simp add: custom_fastest_path_def dijkstra_loop_same)
  then show ?thesis
    by (simp add: find_fastest_route_def initial_summary_def make_route_def catch_no_path_def
        update_last_def)
qed

theorem same_station_route_witness:
  "''C'' \<in> set (nodes two_line_network) \<and>
   find_fastest_route two_line_network ''C'' ''C'' 900 =
    Some (Inr (Some \<lparr>path = [''C''], lines_used = [], transfers = [], num_transfers = 0,
                     total_stations = 1, total_time = 0, travel_time = 0, transfer_time = 0,
                     segments = []\<rparr>))"
proof -
  have h: "''C'' \<in> set (nodes two_line_network)"
    by (simp add: nodes_def two_line_network_def)
  from same_station_route [OF h, of 900] h show ?thesis by simp
qed

section \<open>The two-line scenario\<close>

text \<open>
  C5: on the network A, B, C on Line 1 and C, D, E on Line 2, every hop of cost 100, the
  query from A to E with transfer penalty 50 returns the path A, B, C, D, E with one
  transfer, transfer time 50, travel time 400 and total time 450.
\<close>

theorem two_line_scenario:
  "find_fastest_route two_line_network ''A'' ''E'' 50 =
     Some (Inr (Some
         \<lparr>path = [''A'', ''B'', ''C'', ''D'', ''E''],
            lines_used = [Some ''Line 1'', Some ''Line 2''],
            transfers = [''C''], num_transfers = 1, total_stations = 5,
            total_time = 450, travel_time = 400, transfer_time = 50,
            segments =
              [\<lparr>from_station = ''A'', to_station = Some ''C'',
                  seg_line = Some ''Line 1'', time = 200\<rparr>,
               \<lparr>from_station = ''C'', to_station = Some ''E'',
                  seg_line = Some ''Line 2'', time = 200\<rparr>]\<rparr>))"
  by code_simp

section \<open>Trip classification\<close>

text \<open>
  C8: the classifier answers "Origin trip" exactly when the origin is closed and the
  destination is not, "Destination trip" exactly when the destination is closed and the
  origin is not, "Internal trip" exactly when both are closed, "Passing trip" exactly
  when neither is closed and some station of the path is, and nothing exactly when
  neither endpoint and no station of the path is closed.
\<close>

theorem get_path_type_cases:
  "(get_path_type origin destination closed_stations pth = Some ''Origin trip'')
      = (origin \<in> set closed_stations \<and> destination \<notin> set closed_stations)
   \<and> (get_path_type origin destination closed_stations pth = Some ''Destination trip'')
      = (destination \<in> set closed_stations \<and> origin \<notin> set closed_stations)
   \<and> (get_path_type origin destination closed_stations pth = Some ''Internal trip'')
      = (origin \<in> set closed_stations \<and> destination \<in> set closed_stations)
   \<and> (get_path_type origin destination closed_stations pth = Some ''Passing trip'')
      = (origin \<notin> set closed_stations \<and> destination \<notin> set closed_stations
          \<and> (\<exists>station \<in> set pth. station \<in> set closed_stations))
   \<and> (get_path_type origin destination closed_stations pth = None)
      = (origin \<notin> set closed_stations \<and> destination \<notin> set closed_stations
          \<and> \<not> (\<exists>station \<in> set pth. station \<in> set closed_stations))"
  by (auto simp: get_path_type_def list_ex_iff)

section \<open>Remapping of passing trips\<close>

lemma scan_boundary_find:
  "scan_boundary ib ob pth = find (\<lambda>station. station = ib \<or> station = ob) pth"
  by (induction pth) auto

lemma scan_closed_find:
  "scan_closed closed_stations pth = find (\<lambda>station. station \<in> set closed_stations) pth"
  by (induction pth) auto

text \<open>
  C9: for a trip classified as a passing trip, the remapped origin (the result of
  \<^verbatim>\<open>calculate_origin_station\<close> passed through \<^verbatim>\<open>origin_station_if_none\<close>) is the first
  station of the path that is one of the two boundary stations, and the first closed
  station of the path when neither boundary station is on it; the remapped destination
  is the same on the reversed path.
\<close>

theorem passing_trip_remap:
  assumes "get_path_type origin destination closed_stations pth = Some ''Passing trip''"
  shows "origin_station_if_none
           (calculate_origin_station (get_path_type origin destination closed_stations pth)
              origin ib ob pth) pth closed_stations
         = (case find (\<lambda>station. station = ib \<or> station = ob) pth of
              Some b \<Rightarrow> Some b
            | None \<Rightarrow> find (\<lambda>station. station \<in> set closed_stations) pth)
       \<and> destination_station_if_none
           (calculate_destination_station (get_path_type origin destination closed_stations pth)
              destination ib ob pth) pth closed_stations
         = (case find (\<lambda>station. station = ib \<or> station = ob) (rev pth) of
              Some b \<Rightarrow> Some b
            | None \<Rightarrow> find (\<lambda>station. station \<in> set closed_stations) (rev pth))"
  using assms
  by (simp add: calculate_origin_station_def calculate_destination_station_def
      origin_station_if_none_def destination_station_if_none_def
      scan_boundary_find scan_closed_find split: option.splits)

theorem passing_trip_remap_witness:
  "get_path_type ''A'' ''E'' [''C''] [''A'', ''B'', ''C'', ''D'', ''E''] = Some ''Passing trip''
   \<and> origin_station_if_none
       (calculate_origin_station (get_path_type ''A'' ''E'' [''C''] [''A'', ''B'', ''C'', ''D'', ''E''])
          ''A'' ''B'' ''D'' [''A'', ''B'', ''C'', ''D'', ''E'']) [''A'', ''B'', ''C'', ''D'', ''E''] [''C'']
       = Some ''B''
   \<and> destination_station_if_none
       (calculate_destination_station (get_path_type ''A'' ''E'' [''C''] [''A'', ''B'', ''C'', ''D'', ''E''])
          ''E'' ''B'' ''D'' [''A'', ''B'', ''C'', ''D'', ''E'']) [''A'', ''B'', ''C'', ''D'', ''E''] [''C'']
       = Some ''D''"
proof -
  have h: "get_path_type ''A'' ''E'' [''C''] [''A'', ''B'', ''C'', ''D'', ''E''] = Some ''Passing trip''"
    by (simp add: get_path_type_def)
  from passing_trip_remap [OF h, of "''B''" "''D''"] h show ?thesis by simp
qed

section \<open>Queries about unknown stations\<close>

lemma getitem_error: "getitem d k = Inl e \<Longrightarrow> e = KeyError"
  by (auto simp: getitem_def split: option.splits)

lemma relax_edges_error: "relax_edges tp cd cn pl nb es s = Inl e \<Longrightarrow> e = KeyError"
  by (induction es arbitrary: s) (auto simp: Let_def split: option.splits if_splits)

lemma relax_neighbors_error: "relax_neighbors tp cd cn pl nbrs s = Inl e \<Longrightarrow> e = KeyError"
proof (induction nbrs arbitrary: s)
  case Nil
  then show ?case by simp
next
  case (Cons a nbrs)
  obtain nb es where a: "a = (nb, es)" by (cases a)
  from Cons.prems a show ?case
    by (auto split: sum.splits dest: relax_edges_error Cons.IH)
qed

lemma dijkstra_loop_error: "dijkstra_loop G tp target s = Inl e \<Longrightarrow> e = KeyError"
proof (induction G tp target s rule: dijkstra_loop.induct)
  case (1 G tp target s)
  from "1.prems" have ne: "pq s \<noteq> []"
    by (subst (asm) dijkstra_loop.simps) (auto split: if_splits)
  obtain cd cn pl rest where pop: "heappop (pq s) = ((cd, cn, pl), rest)"
    by (metis prod_cases3 surj_pair)
  from "1.prems" ne pop have nt: "cn \<noteq> target"
    by (subst (asm) dijkstra_loop.simps) (auto split: if_splits)
  show ?case
  proof (cases "cn \<in> visited s")
    case True
    with "1.prems" ne pop nt have "dijkstra_loop G tp target (s\<lparr>pq := rest\<rparr>) = Inl e"
      by (subst (asm) dijkstra_loop.simps) simp
    from "1.IH"(1) [OF ne pop [symmetric] refl refl nt True this] show ?thesis .
  next
    case False
    show ?thesis
    proof (cases "getitem G cn")
      case (Inl e')
      with "1.prems" ne pop nt False have "e = e'"
        by (subst (asm) dijkstra_loop.simps) simp
      with Inl show ?thesis by (simp add: getitem_error)
    next
      case (Inr nbrs)
      show ?thesis
      proof (cases "relax_neighbors tp cd cn pl nbrs (s\<lparr>pq := rest, visited := insert cn (visited s)\<rparr>)")
        case (Inl e')
        with "1.prems" ne pop nt False Inr have "e = e'"
          by (subst (asm) dijkstra_loop.simps) simp
        with Inl show ?thesis by (simp add: relax_neighbors_error)
      next
        case r: (Inr s1)
        with "1.prems" ne pop nt False Inr have "dijkstra_loop G tp target s1 = Inl e"
          by (subst (asm) dijkstra_loop.simps) simp
        from "1.IH"(2) [OF ne pop [symmetric] refl refl nt False Inr r this] show ?thesis .
      qed
    qed
  qed
qed

lemma dijkstra_loop_dom:
  assumes "dijkstra_loop G tp target s = Inr s'"
  shows "dom (distances s') = dom (distances s)"
  using assms
proof (rule dijkstra_loop_rule [where I = "\<lambda>x. dom (distances x) = dom (distances s)"])
  fix s0 cd cn pl rest nbrs s1
  assume d: "dom (distances s0) = dom (distances s)"
    and r: "relax_neighbors tp cd cn pl nbrs (s0\<lparr>pq := rest, visited := insert cn (visited s0)\<rparr>) = Inr s1"
  show "dom (distances s1) = dom (distances s)"
    using r
  proof (rule relax_neighbors_rule)
    fix sa :: search_state and nb k e dn
    assume "dom (distances sa) = dom (distances s)" "distances sa nb = Some dn"
    moreover from this have "nb \<in> dom (distances s)" by auto
    ultimately show "dom (distances (relaxed sa (cd + dijkstra_weight tp cn nb e pl) cn nb k e))
        = dom (distances s)"
      by (simp add: insert_absorb)
  qed (simp add: d)
qed simp_all

lemma dom_initial_distances: "dom (distances (initial_state G source)) = insert source (set (nodes G))"
  by (auto simp: initial_state_def map_of_const_in map_of_const_notin dom_def split: if_splits)

text \<open>
  C2: when the origin or the destination is not a station of the network, the query
  neither returns a route nor returns \<^verbatim>\<open>None\<close> nor runs forever: it fails, and always
  with the same exception, the \<^verbatim>\<open>KeyError\<close> of the failed station lookup, which no
  handler of \<^verbatim>\<open>find_fastest_route\<close> catches.
\<close>

theorem unknown_station_KeyError:
  assumes "origin \<notin> set (nodes G) \<or> destination \<notin> set (nodes G)"
  shows "find_fastest_route G origin destination tp = Some (Inl KeyError)"
proof -
  have "custom_fastest_path G tp origin destination = Some (Inl KeyError)"
  proof (cases "origin \<in> set (nodes G)")
    case True
    with assms have d: "destination \<notin> set (nodes G)" by simp
    with True have ne: "destination \<noteq> origin" by auto
    show ?thesis
    proof (cases "dijkstra_loop G tp destination (initial_state G origin)")
      case (Inl e)
      then show ?thesis by (simp add: custom_fastest_path_def dijkstra_loop_error)
    next
      case (Inr s')
      from dijkstra_loop_dom [OF Inr] d ne have "distances s' destination = None"
        by (auto simp: dom_initial_distances)
      with Inr show ?thesis by (simp add: custom_fastest_path_def)
    qed
  next
    case False
    show ?thesis
    proof (cases "origin = destination")
      case True
      have "previous (initial_state G origin) origin = None"
        using False by (simp add: initial_state_def map_of_const_notin)
      then have "reconstruct (previous (initial_state G origin))
          (previous_edge_keys (initial_state G origin)) (Some origin) [] [] = Some (Inl KeyError)"
        by (simp add: reconstruct.simps)
      moreover have "distances (initial_state G origin) origin = Some (Fin 0)"
        by (simp add: initial_state_def)
      ultimately show ?thesis
        using True by (simp add: custom_fastest_path_def dijkstra_loop_same)
    next
      case ne: False
      have "map_of G origin = None"
        using False by (simp add: nodes_def map_of_eq_None_iff)
      then have "dijkstra_loop G tp destination (initial_state G origin) = Inl KeyError"
        using ne
        by (subst dijkstra_loop.simps) (simp add: initial_state_def heappop_def getitem_def)
      then show ?thesis by (simp add: custom_fastest_path_def)
    qed
  qed
  then show ?thesis by (simp add: find_fastest_route_def catch_no_path_def)
qed

theorem unknown_station_KeyError_witness:
  "''F'' \<notin> set (nodes two_line_network)
   \<and> find_fastest_route two_line_network ''A'' ''F'' 900 = Some (Inl KeyError)"
proof -
  have h: "''F'' \<notin> set (nodes two_line_network)"
    by (simp add: nodes_def two_line_network_def)
  from unknown_station_KeyError [OF disjI2, OF h, of "''A''" 900] h show ?thesis by simp
qed

section \<open>The route summary: reported times and segments\<close>

lemma update_last_Nil: "update_last f [] = []"
  by (simp add: update_last_def)

lemma update_last_single: "update_last f [x] = [f x]"
  by (simp add: update_last_def)

lemma update_last_append: "ys \<noteq> [] \<Longrightarrow> update_last f (xs @ ys) = xs @ update_last f ys"
  by (simp add: update_last_def butlast_append)

lemma update_last_Cons: "update_last f (x # y # zs) = x # update_last f (y # zs)"
  by (simp add: update_last_def)

lemmas update_last_simps =
  update_last_Nil update_last_single update_last_append update_last_Cons

lemma summarize_step_Inr:
  "summarize_step G tp pth lc eks i st = Inr st' \<longleftrightarrow>
     (\<exists>e nl. traversed_edge G pth eks i = Some e \<and> lc (pth ! (i + 1)) = Some nl
        \<and> st' = summary_update tp (pth ! i) (weight e) nl st)"
  unfolding summarize_step_def traversed_edge_def summary_update_def getitem_def
  by (auto simp: Let_def split: option.splits)

lemma summary_update_total:
  "acc_total_time (summary_update tp x w nl st)
     - int (length (acc_transfers (summary_update tp x w nl st))) * tp
   = acc_total_time st - int (length (acc_transfers st)) * tp + w"
  by (simp add: summary_update_def Let_def algebra_simps)

lemma summary_update_initial:
  "seg_inv tp x (summary_update tp x w (Some l) initial_summary)"
  by (simp add: summary_update_def initial_summary_def seg_inv_def update_last_simps)

lemma summary_update_seg_inv:
  assumes "seg_inv tp x0 st"
  shows "seg_inv tp x0 (summary_update tp x w (Some l) st)"
proof -
  from assms obtain gs g where gs: "acc_segments st = gs @ [g]"
    by (cases "acc_segments st" rule: rev_cases) (auto simp: seg_inv_def)
  show ?thesis
    using assms gs
    by (auto simp: seg_inv_def summary_update_def Let_def update_last_simps butlast_append
        hd_append algebra_simps)
qed


lemma summarize_loop_total:
  "summarize_loop G tp pth lc eks is st = Inr st' \<Longrightarrow>
     \<exists>es. map (traversed_edge G pth eks) is = map Some es
       \<and> acc_total_time st' - int (length (acc_transfers st')) * tp
           = acc_total_time st - int (length (acc_transfers st)) * tp + sum_list (map weight es)"
proof (induction "is" arbitrary: st)
  case Nil
  then show ?case by simp
next
  case (Cons i "is")
  from Cons.prems obtain st1 where
    1: "summarize_step G tp pth lc eks i st = Inr st1" and
    2: "summarize_loop G tp pth lc eks is st1 = Inr st'"
    by (auto split: sum.splits)
  from 1 obtain e nl where e: "traversed_edge G pth eks i = Some e"
    and st1: "st1 = summary_update tp (pth ! i) (weight e) nl st"
    by (auto simp: summarize_step_Inr)
  from Cons.IH [OF 2] obtain es where
    es: "map (traversed_edge G pth eks) is = map Some es" and
    t: "acc_total_time st' - int (length (acc_transfers st')) * tp
         = acc_total_time st1 - int (length (acc_transfers st1)) * tp + sum_list (map weight es)"
    by blast
  have "map (traversed_edge G pth eks) (i # is) = map Some (e # es)"
    using e es by simp
  moreover have "acc_total_time st' - int (length (acc_transfers st')) * tp
      = acc_total_time st - int (length (acc_transfers st)) * tp + sum_list (map weight (e # es))"
    using t summary_update_total [of tp "pth ! i" "weight e" nl st] st1 by simp
  ultimately show ?case by blast
qed

lemma summarize_loop_seg_inv:
  assumes "summarize_loop G tp pth lc eks is st = Inr st'"
    and "seg_inv tp x0 st"
    and "\<forall>i \<in> set is. \<exists>l. lc (pth ! (i + 1)) = Some (Some l)"
  shows "seg_inv tp x0 st'"
  using assms
proof (induction "is" arbitrary: st)
  case Nil
  then show ?case by simp
next
  case (Cons i "is")
  from Cons.prems(1) obtain st1 where
    1: "summarize_step G tp pth lc eks i st = Inr st1" and
    2: "summarize_loop G tp pth lc eks is st1 = Inr st'"
    by (auto split: sum.splits)
  from Cons.prems(3) obtain l where l: "lc (pth ! (i + 1)) = Some (Some l)" by auto
  from 1 obtain e :: edge_attr and nl where "lc (pth ! (i + 1)) = Some nl"
    and "st1 = summary_update tp (pth ! i) (weight e) nl st"
    unfolding summarize_step_Inr by blast
  with l Cons.prems(2) have "seg_inv tp x0 st1" by (auto simp: summary_update_seg_inv)
  with 2 Cons.prems(3) show ?case by (intro Cons.IH) auto
qed

lemma reconstruct_chain_aux:
  assumes "reconstruct prev pek cur acc kacc = Some y"
  shows "\<forall>p k. y = Inr (p, k) \<longrightarrow>
     (case cur of
        None \<Rightarrow> p = acc \<and> k = kacc
      | Some c \<Rightarrow> \<exists>ps ks. chain prev pek c ps ks \<and> p = acc @ ps \<and> k = kacc @ ks)"
proof (rule reconstruct.raw_induct [where P = "\<lambda>prev pek cur acc kacc y. \<forall>p k. y = Inr (p, k) \<longrightarrow>
     (case cur of
        None \<Rightarrow> p = acc \<and> k = kacc
      | Some c \<Rightarrow> \<exists>ps ks. chain prev pek c ps ks \<and> p = acc @ ps \<and> k = kacc @ ks)", OF _ assms],
    goal_cases)
  case (1 rc prev pek current pth edge_keys y)
  note IH = 1(1) and eq = 1(2)
  show ?case
  proof (intro allI impI)
    fix p k
    assume y: "y = Inr (p, k)"
    show "case current of
        None \<Rightarrow> p = pth \<and> k = edge_keys
      | Some c \<Rightarrow> \<exists>ps ks. chain prev pek c ps ks \<and> p = pth @ ps \<and> k = edge_keys @ ks"
    proof (cases current)
      case None
      with y eq show ?thesis by simp
    next
      case (Some c)
      show ?thesis
      proof (cases "prev c")
        case None
        with Some y eq show ?thesis by simp
      next
        case pc: (Some pu)
        show ?thesis
        proof (cases pu)
          case None
          with Some pc eq have "rc prev pek None (pth @ [c]) edge_keys = Some y"
            by simp
          from IH [OF this] y have "p = pth @ [c]" "k = edge_keys" by simp_all
          moreover have "chain prev pek c [c] []" using pc None by (auto intro: chain.root)
          ultimately show ?thesis using Some by auto
        next
          case pu: (Some u)
          show ?thesis
          proof (cases "pek c")
            case None
            with Some pc pu y eq show ?thesis by simp
          next
            case (Some key)
            with \<open>current = Some c\<close> pc pu eq
            have "rc prev pek (Some u) (pth @ [c]) (edge_keys @ [key]) = Some y"
              by simp
            from IH [OF this] y obtain ps ks where
              "chain prev pek u ps ks" "p = (pth @ [c]) @ ps" "k = (edge_keys @ [key]) @ ks"
              by auto
            moreover from this pc pu Some have "chain prev pek c (c # ps) (key # ks)"
              by (auto intro: chain.link)
            ultimately show ?thesis using \<open>current = Some c\<close> by auto
          qed
        qed
      qed
    qed
  qed
qed

lemma reconstruct_chain:
  assumes "reconstruct prev pek (Some c) [] [] = Some (Inr (p, k))"
  shows "chain prev pek c p k"
  using reconstruct_chain_aux [OF assms] by simp

lemma chain_reconstruct:
  "chain prev pek c ps ks \<Longrightarrow>
     reconstruct prev pek (Some c) acc kacc = Some (Inr (acc @ ps, kacc @ ks))"
proof (induction arbitrary: acc kacc rule: chain.induct)
  case (root c)
  then show ?case by (simp add: reconstruct.simps)
next
  case (link c u k ps ks)
  from link.hyps(1,2) link.IH [of "acc @ [c]" "kacc @ [k]"] show ?case
    by (subst reconstruct.simps) simp
qed

lemma chain_length: "chain prev pek c ps ks \<Longrightarrow> length ps = length ks + 1"
  by (induction rule: chain.induct) auto

lemma chain_hd: "chain prev pek c ps ks \<Longrightarrow> ps \<noteq> [] \<and> hd ps = c"
  by (induction rule: chain.induct) auto

lemma chain_last: "chain prev pek c ps ks \<Longrightarrow> prev (last ps) = Some None"
  by (induction rule: chain.induct) (auto dest: chain_hd)

lemma chain_rev_nth:
  "chain prev pek c ps ks \<Longrightarrow> j < length ks \<Longrightarrow>
     prev (rev ps ! (j + 1)) = Some (Some (rev ps ! j)) \<and> pek (rev ps ! (j + 1)) = Some (rev ks ! j)"
proof (induction arbitrary: j rule: chain.induct)
  case (root c)
  then show ?case by simp
next
  case (link c u k ps ks)
  have len: "length ps = length ks + 1" using link.hyps(3) by (rule chain_length)
  have hd: "ps \<noteq> []" "hd ps = u" using link.hyps(3) by (auto dest: chain_hd)
  show ?case
  proof (cases "j < length ks")
    case True
    with link.IH [OF True] len show ?thesis by (simp add: nth_append)
  next
    case False
    with link.prems have j: "j = length ks" by simp
    have "rev ps ! length ks = u"
      using len hd by (metis add_diff_cancel_right' last_conv_nth last_rev length_rev rev_is_Nil_conv)
    with j len link.hyps(1,2) show ?thesis by (simp add: nth_append)
  qed
qed

lemma lines_inv_initial: "lines_inv (initial_state G source)"
  by (auto simp: lines_inv_def initial_state_def dest!: map_of_SomeD)

lemma dijkstra_loop_lines_inv:
  assumes "dijkstra_loop G tp target s = Inr s'" and "lines_inv s"
  shows "lines_inv s'"
  using assms
proof (rule dijkstra_loop_rule [where I = lines_inv])
  fix s0 :: search_state and cd cn pl rest nbrs s1
  assume i: "lines_inv s0"
    and r: "relax_neighbors tp cd cn pl nbrs (s0\<lparr>pq := rest, visited := insert cn (visited s0)\<rparr>) = Inr s1"
  show "lines_inv s1"
    using r
  proof (rule relax_neighbors_rule)
    show "lines_inv (s0\<lparr>pq := rest, visited := insert cn (visited s0)\<rparr>)"
      using i by (simp add: lines_inv_def)
  next
    fix sa :: search_state and nb k e
    assume "lines_inv sa"
    then show "lines_inv (relaxed sa (cd + dijkstra_weight tp cn nb e pl) cn nb k e)"
      by (simp add: lines_inv_def)
  qed
qed (simp_all add: lines_inv_def)


lemma find_fastest_route_SomeE:
  assumes "find_fastest_route G origin destination tp = Some (Inr (Some r))"
  obtains pth lc eks st where
    "custom_fastest_path G tp origin destination = Some (Inr (pth, lc, eks))"
    "summarize_loop G tp pth lc eks [0 ..< length pth - 1] initial_summary = Inr st"
    "make_route tp pth st = Inr r"
  using assms
  by (auto simp: find_fastest_route_def catch_no_path_def
      split: option.splits sum.splits if_splits)

lemma custom_fastest_path_InrE:
  assumes "custom_fastest_path G tp origin destination = Some (Inr (pth, lc, eks))"
  obtains s where
    "dijkstra_loop G tp destination (initial_state G origin) = Inr s"
    "lc = previous_lines s"
    "chain (previous s) (previous_edge_keys s) destination (rev pth) (rev eks)"
proof -
  from assms obtain s p k where
    s: "dijkstra_loop G tp destination (initial_state G origin) = Inr s" and
    r: "reconstruct (previous s) (previous_edge_keys s) (Some destination) [] [] = Some (Inr (p, k))" and
    e: "pth = rev p" "lc = previous_lines s" "eks = rev k"
    by (auto simp: custom_fastest_path_def split: option.splits sum.splits if_splits)
  from reconstruct_chain [OF r] e s show ?thesis by (intro that [of s]) simp_all
qed

lemma make_route_Inr:
  assumes "make_route tp pth st = Inr r"
  shows "path r = pth" "transfers r = acc_transfers st" "lines_used r = acc_lines_used st"
    "num_transfers r = length (acc_transfers st)" "total_time r = acc_total_time st"
    "travel_time r = acc_total_time st - int (length (acc_transfers st)) * tp"
    "transfer_time r = int (length (acc_transfers st)) * tp"
    "segments r = update_last (\<lambda>g. g\<lparr>to_station := Some (last pth)\<rparr>) (acc_segments st)"
  using assms by (auto simp: make_route_def split: if_splits)

lemma two_line_run_900:
  "find_fastest_route two_line_network ''A'' ''E'' 900 = Some (Inr (Some two_line_route_900))"
  by code_simp

text \<open>
  C7: for every successful query the reported total time is the sum of the weights of the
  traversed edges (the edges under the keys the router recorded) plus the number of
  transfers times the transfer penalty, the transfer time is the number of transfers
  times the penalty, and the travel time is the sum of the weights: the bias of 10 that
  the relaxation adds at a change of line is in none of them.
\<close>

theorem reported_times_exclude_bias:
  assumes "find_fastest_route G origin destination tp = Some (Inr (Some r))"
  shows "\<exists>pth lc eks es.
           custom_fastest_path G tp origin destination = Some (Inr (pth, lc, eks))
           \<and> path r = pth
           \<and> map (traversed_edge G pth eks) [0 ..< length pth - 1] = map Some es
           \<and> total_time r = sum_list (map weight es) + int (num_transfers r) * tp
           \<and> transfer_time r = int (num_transfers r) * tp
           \<and> travel_time r = sum_list (map weight es)"
proof -
  from assms obtain pth lc eks st where
    c: "custom_fastest_path G tp origin destination = Some (Inr (pth, lc, eks))" and
    l: "summarize_loop G tp pth lc eks [0 ..< length pth - 1] initial_summary = Inr st" and
    m: "make_route tp pth st = Inr r"
    by (rule find_fastest_route_SomeE)
  from summarize_loop_total [OF l] obtain es where
    es: "map (traversed_edge G pth eks) [0 ..< length pth - 1] = map Some es" and
    t: "acc_total_time st - int (length (acc_transfers st)) * tp = sum_list (map weight es)"
    by (auto simp: initial_summary_def)
  from t make_route_Inr [OF m] have
    "path r = pth" "total_time r = sum_list (map weight es) + int (num_transfers r) * tp"
    "transfer_time r = int (num_transfers r) * tp" "travel_time r = sum_list (map weight es)"
    by simp_all
  with c es show ?thesis by blast
qed

theorem reported_times_exclude_bias_witness:
  "find_fastest_route two_line_network ''A'' ''E'' 900 = Some (Inr (Some two_line_route_900))
   \<and> (\<exists>pth lc eks es.
         custom_fastest_path two_line_network 900 ''A'' ''E'' = Some (Inr (pth, lc, eks))
         \<and> path two_line_route_900 = pth
         \<and> map (traversed_edge two_line_network pth eks) [0 ..< length pth - 1] = map Some es
         \<and> total_time two_line_route_900
             = sum_list (map weight es) + int (num_transfers two_line_route_900) * 900
         \<and> transfer_time two_line_route_900 = int (num_transfers two_line_route_900) * 900
         \<and> travel_time two_line_route_900 = sum_list (map weight es))"
  using reported_times_exclude_bias [OF two_line_run_900] two_line_run_900 by simp

text \<open>
  C10: for every successful route with at least two stations on its path, the list of
  segments is not empty, the first segment starts at the first station of the path, the
  last segment ends at the last station of the path, every segment has an end station,
  there are as many segments as transfers plus one and as many as lines used, and the
  times of the segments add up to the travel time.
\<close>

theorem segments_tile_path:
  assumes "find_fastest_route G origin destination tp = Some (Inr (Some r))"
    and "2 \<le> length (path r)"
  shows "segments r \<noteq> []
       \<and> from_station (hd (segments r)) = hd (path r)
       \<and> to_station (last (segments r)) = Some (last (path r))
       \<and> list_all (\<lambda>g. to_station g \<noteq> None) (segments r)
       \<and> length (segments r) = num_transfers r + 1
       \<and> length (segments r) = length (lines_used r)
       \<and> sum_list (map time (segments r)) = travel_time r"
proof -
  from assms(1) obtain pth lc eks st where
    c: "custom_fastest_path G tp origin destination = Some (Inr (pth, lc, eks))" and
    l: "summarize_loop G tp pth lc eks [0 ..< length pth - 1] initial_summary = Inr st" and
    m: "make_route tp pth st = Inr r"
    by (rule find_fastest_route_SomeE)
  note r = make_route_Inr [OF m]
  from c obtain s where
    s: "dijkstra_loop G tp destination (initial_state G origin) = Inr s" and
    lc: "lc = previous_lines s" and
    ch: "chain (previous s) (previous_edge_keys s) destination (rev pth) (rev eks)"
    by (rule custom_fastest_path_InrE)
  have inv: "lines_inv s"
    using s lines_inv_initial by (rule dijkstra_loop_lines_inv)
  have len: "length pth = length eks + 1" using chain_length [OF ch] by simp
  have lines: "\<exists>l. lc (pth ! (i + 1)) = Some (Some l)" if "i < length pth - 1" for i
  proof -
    from that len have "i < length (rev eks)" by simp
    from chain_rev_nth [OF ch this] have "previous s (pth ! (i + 1)) = Some (Some (pth ! i))"
      by simp
    with inv lc show ?thesis by (auto simp: lines_inv_def)
  qed
  from assms(2) r(1) have n: "0 < length pth - 1" by simp
  then have upt: "[0 ..< length pth - 1] = 0 # [1 ..< length pth - 1]"
    by (simp add: upt_conv_Cons)
  from l upt obtain st1 where
    1: "summarize_step G tp pth lc eks 0 initial_summary = Inr st1" and
    2: "summarize_loop G tp pth lc eks [1 ..< length pth - 1] st1 = Inr st"
    by (auto split: sum.splits)
  from lines [OF n] obtain l0 where l0: "lc (pth ! (0 + 1)) = Some (Some l0)" by blast
  from 1 obtain e :: edge_attr and nl where "lc (pth ! (0 + 1)) = Some nl"
    and "st1 = summary_update tp (pth ! 0) (weight e) nl initial_summary"
    unfolding summarize_step_Inr by blast
  with l0 have "seg_inv tp (pth ! 0) st1" by (auto simp: summary_update_initial)
  with 2 have "seg_inv tp (pth ! 0) st"
    by (rule summarize_loop_seg_inv) (use lines in auto)
  moreover from n have "pth ! 0 = hd pth" by (cases pth) auto
  moreover obtain gs g where "acc_segments st = gs @ [g]"
    using \<open>seg_inv tp (pth ! 0) st\<close>
    by (cases "acc_segments st" rule: rev_cases) (auto simp: seg_inv_def)
  ultimately show ?thesis
    using r by (auto simp: seg_inv_def update_last_simps hd_append list_all_iff)
qed

theorem segments_tile_path_witness:
  "find_fastest_route two_line_network ''A'' ''E'' 900 = Some (Inr (Some two_line_route_900))
   \<and> 2 \<le> length (path two_line_route_900)
   \<and> segments two_line_route_900 \<noteq> []
   \<and> from_station (hd (segments two_line_route_900)) = hd (path two_line_route_900)
   \<and> to_station (last (segments two_line_route_900)) = Some (last (path two_line_route_900))
   \<and> list_all (\<lambda>g. to_station g \<noteq> None) (segments two_line_route_900)
   \<and> length (segments two_line_route_900) = num_transfers two_line_route_900 + 1
   \<and> length (segments two_line_route_900) = length (lines_used two_line_route_900)
   \<and> sum_list (map time (segments two_line_route_900)) = travel_time two_line_route_900"
proof -
  have h: "2 \<le> length (path two_line_route_900)"
    by (simp add: two_line_route_900_def)
  from segments_tile_path [OF two_line_run_900 h] two_line_run_900 h show ?thesis by simp
qed

section \<open>Queries without a route\<close>

subsection \<open>The priority queue\<close>

lemma set_remove1_insert: "x \<in> set xs \<Longrightarrow> set xs = insert x (set (remove1 x xs))"
  by (induction xs) auto

lemma heappop_set:
  assumes "h \<noteq> []" and "heappop h = (m, rest)"
  shows "m \<in> set h" and "set rest \<subseteq> set h" and "set h = insert m (set rest)"
proof -
  from assms have m: "m = arg_min_list entry_key h" and r: "rest = remove1 m h"
    by (auto simp: heappop_def Let_def)
  show 1: "m \<in> set h" using m assms(1) by (simp add: arg_min_list_in)
  show "set rest \<subseteq> set h" using r by (simp add: set_remove1_subset)
  show "set h = insert m (set rest)"
    using 1 r by (simp add: set_remove1_insert [symmetric])
qed

lemma heappop_least:
  assumes "h \<noteq> []" and "heappop h = ((cd, cn, pl), rest)" and "e \<in> set h"
  shows "cd \<le> fst e"
proof -
  from assms have m: "(cd, cn, pl) = arg_min_list entry_key h"
    by (simp add: heappop_def Let_def)
  have "entry_key (arg_min_list entry_key h) = Min (entry_key ` set h)"
    using assms(1) by (rule f_arg_min_list_f)
  then have "entry_key (cd, cn, pl) \<le> entry_key e"
    using assms(3) m by simp
  then show ?thesis by (auto simp: entry_key_def less_eq_prod_def)
qed

subsection \<open>Well-formed graphs and walks\<close>

lemma getitem_Inr: "getitem d k = Inr v \<longleftrightarrow> map_of d k = Some v"
  by (auto simp: getitem_def split: option.splits)

lemma multigraph_adj:
  assumes "multigraph G" and "map_of G u = Some adj"
  shows "distinct (map fst adj)" and "\<And>v edges. (v, edges) \<in> set adj \<Longrightarrow> v \<in> set (nodes G)"
    and "\<And>v edges. (v, edges) \<in> set adj \<Longrightarrow> distinct (map fst edges)"
    and "\<And>v edges. (v, edges) \<in> set adj \<Longrightarrow> map_of adj v = Some edges"
proof -
  from assms(2) have "(u, adj) \<in> set G" by (rule map_of_SomeD)
  with assms(1) show d: "distinct (map fst adj)"
    and "\<And>v edges. (v, edges) \<in> set adj \<Longrightarrow> v \<in> set (nodes G)"
    and "\<And>v edges. (v, edges) \<in> set adj \<Longrightarrow> distinct (map fst edges)"
    by (auto simp: multigraph_def)
  show "\<And>v edges. (v, edges) \<in> set adj \<Longrightarrow> map_of adj v = Some edges"
    using d by simp
qed

lemma walk_snoc: "walk G p \<Longrightarrow> adjacent G (last p) v \<Longrightarrow> v \<in> set (nodes G) \<Longrightarrow> walk G (p @ [v])"
  by (induction G p rule: walk.induct) auto

lemma walk_hd_snoc: "walk G p \<Longrightarrow> hd (p @ [v]) = hd p"
  by (cases p) auto

subsection \<open>The main loop raises nothing on a well-formed graph\<close>

lemma relax_edges_succeeds:
  "distances s nb \<noteq> None \<Longrightarrow> \<exists>s'. relax_edges tp cd cn pl nb es s = Inr s'"
  by (induction es arbitrary: s) (auto simp: Let_def)

lemma relax_edges_dom:
  assumes "relax_edges tp cd cn pl nb es s = Inr s'"
  shows "dom (distances s') = dom (distances s)"
  using assms
proof (rule relax_edges_rule [where I = "\<lambda>x. dom (distances x) = dom (distances s)"])
  fix sa :: search_state and k e dn
  assume "dom (distances sa) = dom (distances s)" "distances sa nb = Some dn"
  moreover from this have "nb \<in> dom (distances s)" by auto
  ultimately show "dom (distances (relaxed sa (cd + dijkstra_weight tp cn nb e pl) cn nb k e))
      = dom (distances s)"
    by (simp add: insert_absorb)
qed simp

lemma relax_neighbors_succeeds:
  "\<forall>(nb, es) \<in> set nbrs. nb \<in> dom (distances s) \<Longrightarrow>
     \<exists>s'. relax_neighbors tp cd cn pl nbrs s = Inr s'"
proof (induction nbrs arbitrary: s)
  case Nil
  then show ?case by simp
next
  case (Cons a nbrs)
  obtain nb es where a: "a = (nb, es)" by (cases a)
  with Cons.prems have "distances s nb \<noteq> None" by auto
  then obtain s1 where 1: "relax_edges tp cd cn pl nb es s = Inr s1"
    using relax_edges_succeeds by blast
  from relax_edges_dom [OF 1] Cons.prems
  have "\<forall>(nb, es) \<in> set nbrs. nb \<in> dom (distances s1)" by auto
  from Cons.IH [OF this] 1 a show ?case by simp
qed

lemma keys_inv_pop:
  assumes "keys_inv G s" and "pq s \<noteq> []" and "heappop (pq s) = (m, rest)"
  shows "keys_inv G (s\<lparr>pq := rest\<rparr>)" and "keys_inv G (s\<lparr>pq := rest, visited := V\<rparr>)"
    and "fst (snd m) \<in> set (nodes G)"
  using assms heappop_set [OF assms(2,3)] by (auto simp: keys_inv_def)

lemma keys_inv_relax:
  assumes "relax_neighbors tp cd cn pl nbrs s = Inr s'" and "keys_inv G s"
    and "\<forall>(nb, es) \<in> set nbrs. nb \<in> set (nodes G)"
  shows "keys_inv G s'"
  using assms(1,2)
proof (rule relax_neighbors_rule)
  fix sa :: search_state and nb es k e dn
  assume "keys_inv G sa" "(nb, es) \<in> set nbrs"
  with assms(3) show "keys_inv G (relaxed sa (cd + dijkstra_weight tp cn nb e pl) cn nb k e)"
    by (auto simp: keys_inv_def heappush_def)
qed

lemma dijkstra_loop_succeeds:
  assumes "multigraph G" and "keys_inv G s"
  shows "\<exists>s'. dijkstra_loop G tp target s = Inr s'"
  using assms
proof (induction G tp target s rule: dijkstra_loop.induct)
  case (1 G tp target s)
  show ?case
  proof (cases "pq s = []")
    case True
    then show ?thesis by (subst dijkstra_loop.simps) simp
  next
    case False
    obtain cd cn pl rest where pop: "heappop (pq s) = ((cd, cn, pl), rest)"
      by (metis prod_cases3 surj_pair)
    note k = keys_inv_pop [OF "1.prems"(2) False pop]
    show ?thesis
    proof (cases "cn = target")
      case True
      with False pop show ?thesis by (subst dijkstra_loop.simps) simp
    next
      case nt: False
      show ?thesis
      proof (cases "cn \<in> visited s")
        case True
        from "1.IH"(1) [OF False pop [symmetric] refl refl nt True "1.prems"(1) k(1)]
        show ?thesis using False pop nt True by (subst dijkstra_loop.simps) simp
      next
        case nv: False
        from k(3) have "map_of G cn \<noteq> None"
          by (simp add: nodes_def map_of_eq_None_iff)
        then obtain nbrs where g: "map_of G cn = Some nbrs" by blast
        then have gi: "getitem G cn = Inr nbrs" by (simp add: getitem_Inr)
        have nb: "\<forall>(nb, es) \<in> set nbrs. nb \<in> set (nodes G)"
          using multigraph_adj(2) [OF "1.prems"(1) g] by auto
        with k(2) [of "insert cn (visited s)"]
        have "\<forall>(nb, es) \<in> set nbrs.
            nb \<in> dom (distances (s\<lparr>pq := rest, visited := insert cn (visited s)\<rparr>))"
          by (auto simp: keys_inv_def)
        then obtain s1 where r: "relax_neighbors tp cd cn pl nbrs
            (s\<lparr>pq := rest, visited := insert cn (visited s)\<rparr>) = Inr s1"
          using relax_neighbors_succeeds by blast
        have "keys_inv G s1" using r k(2) nb by (rule keys_inv_relax)
        from "1.IH"(2) [OF False pop [symmetric] refl refl nt nv gi r "1.prems"(1) this]
        show ?thesis using False pop nt nv gi r by (subst dijkstra_loop.simps) simp
      qed
    qed
  qed
qed

lemma keys_inv_initial: "source \<in> set (nodes G) \<Longrightarrow> keys_inv G (initial_state G source)"
  by (auto simp: keys_inv_def initial_state_def map_of_const_in)


lemma adjacentI:
  assumes "multigraph G" and "map_of G u = Some adj" and "(v, edges) \<in> set adj" and "x \<in> set edges"
  shows "adjacent G u v"
  using assms multigraph_adj(4) [OF assms(1,2,3)] by (auto simp: adjacent_def)

lemma reach_inv_initial:
  assumes "source \<in> set (nodes G)"
  shows "reach_inv G source (initial_state G source)"
proof -
  from assms have w: "\<exists>p. walk G p \<and> hd p = source \<and> last p = source"
    by (intro exI [of _ "[source]"]) simp
  have d: "distances (initial_state G source) n = Some (Fin x) \<Longrightarrow> n = source" for n x
    by (auto simp: initial_state_def split: if_splits dest!: map_of_SomeD)
  have q: "pq (initial_state G source) = [(0, source, None)]"
    by (simp add: initial_state_def)
  show ?thesis
    unfolding reach_inv_def q using w d by fastforce
qed

lemma dijkstra_loop_reach:
  assumes "dijkstra_loop G tp target s = Inr s'" and "reach_inv G source s" and "multigraph G"
  shows "reach_inv G source s'"
  using assms(1,2)
proof (rule dijkstra_loop_rule [where I = "reach_inv G source"])
  fix s0 :: search_state and cd cn pl rest
  assume "reach_inv G source s0" "pq s0 \<noteq> []" "heappop (pq s0) = ((cd, cn, pl), rest)"
  then show "reach_inv G source (s0\<lparr>pq := rest\<rparr>)"
    using heappop_set(2) [of "pq s0" "(cd, cn, pl)" rest] by (auto simp: reach_inv_def)
  then show "reach_inv G source (s0\<lparr>pq := rest\<rparr>)" .
next
  fix s0 :: search_state and cd cn pl rest nbrs s1
  assume i: "reach_inv G source s0" and ne: "pq s0 \<noteq> []"
    and pop: "heappop (pq s0) = ((cd, cn, pl), rest)"
    and g: "getitem G cn = Inr nbrs"
    and r: "relax_neighbors tp cd cn pl nbrs (s0\<lparr>pq := rest, visited := insert cn (visited s0)\<rparr>) = Inr s1"
  from g have m: "map_of G cn = Some nbrs" by (simp add: getitem_Inr)
  from heappop_set [OF ne pop] i obtain p where p: "walk G p" "hd p = source" "last p = cn"
    by (fastforce simp: reach_inv_def)
  show "reach_inv G source s1"
    using r
  proof (rule relax_neighbors_rule)
    show "reach_inv G source (s0\<lparr>pq := rest, visited := insert cn (visited s0)\<rparr>)"
      using i heappop_set(2) [OF ne pop] by (auto simp: reach_inv_def)
  next
    fix sa :: search_state and nb es k e dn
    assume ia: "reach_inv G source sa" and nb: "(nb, es) \<in> set nbrs" and e: "(k, e) \<in> set es"
    have "adjacent G cn nb" using assms(3) m nb e by (rule adjacentI)
    moreover have "nb \<in> set (nodes G)" using multigraph_adj(2) [OF assms(3) m nb] .
    ultimately have "walk G (p @ [nb])" "hd (p @ [nb]) = source" "last (p @ [nb]) = nb"
      using p by (simp_all add: walk_snoc walk_hd_snoc)
    then have "\<exists>q. walk G q \<and> hd q = source \<and> last q = nb" by blast
    with ia show "reach_inv G source (relaxed sa (cd + dijkstra_weight tp cn nb e pl) cn nb k e)"
      by (auto simp: reach_inv_def heappush_def)
  qed
qed

lemma walk_last_adjacent:
  "walk G p \<Longrightarrow> hd p \<noteq> last p \<Longrightarrow> \<exists>u. adjacent G u (last p)"
proof (induction G p rule: walk.induct)
  case (3 G u v rest)
  show ?case
  proof (cases "hd (v # rest) = last (v # rest)")
    case True
    with "3.prems" show ?thesis by auto
  next
    case False
    with "3.prems" "3.IH" show ?thesis by auto
  qed
qed simp_all

text \<open>
  C3: when origin and destination are stations of the network and no walk leads from
  the origin to the destination, the query returns \<^verbatim>\<open>None\<close>: it raises nothing
  and it does not run forever.
\<close>

theorem no_route_returns_None:
  assumes "multigraph G"
    and "origin \<in> set (nodes G)" and "destination \<in> set (nodes G)"
    and "\<not> (\<exists>p. walk G p \<and> hd p = origin \<and> last p = destination)"
  shows "find_fastest_route G origin destination tp = Some (Inr None)"
proof -
  from dijkstra_loop_succeeds [OF assms(1) keys_inv_initial [OF assms(2)]]
  obtain s where s: "dijkstra_loop G tp destination (initial_state G origin) = Inr s"
    by blast
  from dijkstra_loop_dom [OF s] assms(3) obtain dt where dt: "distances s destination = Some dt"
    by (auto simp: dom_initial_distances)
  have "reach_inv G origin s"
    using s reach_inv_initial [OF assms(2)] assms(1) by (rule dijkstra_loop_reach)
  with dt assms(4) have "dt = Infinity"
    by (cases dt) (auto simp: reach_inv_def)
  with s dt have "custom_fastest_path G tp origin destination = Some (Inl NetworkXNoPath)"
    by (simp add: custom_fastest_path_def)
  then show ?thesis by (simp add: find_fastest_route_def catch_no_path_def)
qed

theorem no_route_returns_None_witness:
  "multigraph two_line_network_F
   \<and> ''A'' \<in> set (nodes two_line_network_F) \<and> ''F'' \<in> set (nodes two_line_network_F)
   \<and> \<not> (\<exists>p. walk two_line_network_F p \<and> hd p = ''A'' \<and> last p = ''F'')
   \<and> find_fastest_route two_line_network_F ''A'' ''F'' 900 = Some (Inr None)"
proof -
  have g: "multigraph two_line_network_F"
    by (simp add: multigraph_def two_line_network_F_def two_line_network_def nodes_def)
  have a: "''A'' \<in> set (nodes two_line_network_F)"
    and f: "''F'' \<in> set (nodes two_line_network_F)"
    by (simp_all add: two_line_network_F_def two_line_network_def nodes_def)
  have "\<not> adjacent two_line_network_F u ''F''" for u
    by (simp add: adjacent_def two_line_network_F_def two_line_network_def)
  then have w: "\<not> (\<exists>p. walk two_line_network_F p \<and> hd p = ''A'' \<and> last p = ''F'')"
    using walk_last_adjacent [of two_line_network_F] by fastforce
  from no_route_returns_None [OF g a f w, of 900] g a f w show ?thesis by simp
qed

section \<open>The number of transfers and the penalty\<close>

text \<open>
  The number of transfers is not monotone in the penalty. On the hub network, from S to T:
  with penalty 55 the route goes over M and X with one transfer; with penalty 65 the
  single distance kept for X is the one of the direct L1 edge, and the route goes on
  over Y with two transfers; with penalty 1000 it has one transfer again.
\<close>

theorem transfers_not_monotone:
  "multigraph hub_network
   \<and> route_transfers (find_fastest_route hub_network ''S'' ''T'' 55) = Some 1
   \<and> route_transfers (find_fastest_route hub_network ''S'' ''T'' 65) = Some 2
   \<and> route_transfers (find_fastest_route hub_network ''S'' ''T'' 1000) = Some 1"
  by code_simp

text \<open>
  Between routes that are each the cheaper one at their own penalty, the one for the
  larger penalty has no more transfers: a router that finds the fastest route cannot
  answer a larger penalty with more transfers.
\<close>

lemma cheaper_route_fewer_transfers:
  assumes "travel_time r1 + int (num_transfers r1) * p1 \<le> travel_time r2 + int (num_transfers r2) * p1"
    and "travel_time r2 + int (num_transfers r2) * p2 \<le> travel_time r1 + int (num_transfers r1) * p2"
    and "p1 < p2"
  shows "num_transfers r2 \<le> num_transfers r1"
proof (rule ccontr)
  assume "\<not> num_transfers r2 \<le> num_transfers r1"
  then have "int (num_transfers r1) + 1 \<le> int (num_transfers r2)" by simp
  then have "(int (num_transfers r1) + 1) * (p2 - p1) \<le> int (num_transfers r2) * (p2 - p1)"
    using assms(3) by (intro mult_right_mono) simp_all
  with assms show False by (simp add: algebra_simps)
qed

text \<open>\<^verbatim>\<open>find_fastest_route\<close> is the router followed by the summary of its path.\<close>

lemma find_fastest_route_summarize_path:
  "custom_fastest_path G tp origin destination = Some (Inr (pth, lc, eks)) \<Longrightarrow>
     find_fastest_route G origin destination tp = Some (catch_no_path (summarize_path G tp pth lc eks))"
  by (simp add: find_fastest_route_def summarize_path_def)

text \<open>
  C6, at the input where the code departs from it: on the hub network, from S to T, the
  query with penalty 55 returns the path S, M, X, T with one transfer, and the query with
  the larger penalty 65 returns the path S, X, Y, T with two transfers and total time
  232. That route is not the fastest one: the summary of the code prices the path
  S, M, X, T, with its one transfer, at 195 for penalty 65.
\<close>

theorem hub_route_not_fastest:
  "map_option path (returned_route (find_fastest_route hub_network ''S'' ''T'' 55))
     = Some [''S'', ''M'', ''X'', ''T'']
   \<and> map_option num_transfers (returned_route (find_fastest_route hub_network ''S'' ''T'' 55)) = Some 1
   \<and> map_option path (returned_route (find_fastest_route hub_network ''S'' ''T'' 65))
     = Some [''S'', ''X'', ''Y'', ''T'']
   \<and> map_option num_transfers (returned_route (find_fastest_route hub_network ''S'' ''T'' 65)) = Some 2
   \<and> map_option total_time (returned_route (find_fastest_route hub_network ''S'' ''T'' 65)) = Some 232
   \<and> map_sum id num_transfers
        (summarize_path hub_network 65 [''S'', ''M'', ''X'', ''T''] hub_lines_over_M
           [Some 0, Some 0, Some 0]) = Inr 1
   \<and> map_sum id total_time
        (summarize_path hub_network 65 [''S'', ''M'', ''X'', ''T''] hub_lines_over_M
           [Some 0, Some 0, Some 0]) = Inr 195"
  by code_simp

section \<open>Queries between connected stations\<close>

lemma finite_dist_relaxed:
  "finite_dist (relaxed s d cn nb k e) v \<longleftrightarrow> v = nb \<or> finite_dist s v"
  by (auto simp: finite_dist_def)

lemma relax_edges_finite_mono:
  assumes "relax_edges tp cd cn pl nb es s = Inr s'" and "finite_dist s v"
  shows "finite_dist s' v"
  using assms by (rule relax_edges_rule) (simp add: finite_dist_relaxed)

lemma relax_neighbors_finite_mono:
  assumes "relax_neighbors tp cd cn pl nbrs s = Inr s'" and "finite_dist s v"
  shows "finite_dist s' v"
  using assms by (rule relax_neighbors_rule) (simp add: finite_dist_relaxed)

lemma relax_edges_finite:
  assumes "relax_edges tp cd cn pl nb es s = Inr s'" and "es \<noteq> []"
  shows "finite_dist s' nb"
proof -
  from assms(2) obtain k e rest where es: "es = (k, e) # rest" by (cases es) auto
  from assms(1) es obtain dn where dn: "distances s nb = Some dn"
    by (auto simp: Let_def split: option.splits)
  show ?thesis
  proof (cases "dist_less (cd + dijkstra_weight tp cn nb e pl) dn")
    case True
    with assms(1) es dn
    have "relax_edges tp cd cn pl nb rest (relaxed s (cd + dijkstra_weight tp cn nb e pl) cn nb k e) = Inr s'"
      by (simp add: Let_def)
    then show ?thesis by (rule relax_edges_finite_mono) (simp add: finite_dist_relaxed)
  next
    case False
    with assms(1) es dn have r: "relax_edges tp cd cn pl nb rest s = Inr s'"
      by (simp add: Let_def)
    from False have "finite_dist s nb" using dn by (cases dn) (auto simp: finite_dist_def)
    with r show ?thesis by (rule relax_edges_finite_mono)
  qed
qed

lemma relax_neighbors_finite:
  assumes "relax_neighbors tp cd cn pl nbrs s = Inr s'" and "(v, edges) \<in> set nbrs" and "edges \<noteq> []"
  shows "finite_dist s' v"
  using assms
proof (induction nbrs arbitrary: s)
  case Nil
  then show ?case by simp
next
  case (Cons a nbrs)
  obtain nb es where a: "a = (nb, es)" by (cases a)
  from Cons.prems(1) a obtain s1 where
    1: "relax_edges tp cd cn pl nb es s = Inr s1" and
    2: "relax_neighbors tp cd cn pl nbrs s1 = Inr s'"
    by (auto split: sum.splits)
  show ?case
  proof (cases "(v, edges) = a")
    case True
    with a 1 Cons.prems(3) have "finite_dist s1 v" by (auto dest: relax_edges_finite)
    with 2 show ?thesis by (rule relax_neighbors_finite_mono)
  next
    case False
    with Cons.prems(2) have "(v, edges) \<in> set nbrs" by simp
    from Cons.IH [OF 2 this Cons.prems(3)] show ?thesis .
  qed
qed

lemma adjacentE:
  assumes "adjacent G u v"
  obtains adj edges where "map_of G u = Some adj" "(v, edges) \<in> set adj" "edges \<noteq> []"
  using assms by (auto simp: adjacent_def split: option.splits dest: map_of_SomeD)

lemma front_closed_initial:
  "front_inv (initial_state G source)" "closed_inv G (initial_state G source)"
  by (auto simp: front_inv_def closed_inv_def finite_dist_def initial_state_def
      split: if_splits dest!: map_of_SomeD)

lemma front_inv_pop_continue:
  assumes "front_inv s" and "pq s \<noteq> []" and "heappop (pq s) = ((cd, cn, pl), rest)"
    and "cn \<in> visited s"
  shows "front_inv (s\<lparr>pq := rest\<rparr>)"
  using assms(1,4) heappop_set(3) [OF assms(2,3)]
  by (auto simp: front_inv_def finite_dist_def)

lemma front_inv_visit:
  assumes "front_inv s" and "pq s \<noteq> []" and "heappop (pq s) = ((cd, cn, pl), rest)"
    and "relax_neighbors tp cd cn pl nbrs (s\<lparr>pq := rest, visited := insert cn (visited s)\<rparr>) = Inr s1"
  shows "front_inv s1"
  using assms(4)
proof (rule relax_neighbors_rule)
  show "front_inv (s\<lparr>pq := rest, visited := insert cn (visited s)\<rparr>)"
    using assms(1) heappop_set(3) [OF assms(2,3)]
    by (auto simp: front_inv_def finite_dist_def)
next
  fix sa :: search_state and nb k e
  assume "front_inv sa"
  then show "front_inv (relaxed sa (cd + dijkstra_weight tp cn nb e pl) cn nb k e)"
    unfolding front_inv_def finite_dist_relaxed by (auto simp: heappush_def)
qed

lemma closed_inv_pop: "closed_inv G s \<Longrightarrow> closed_inv G (s\<lparr>pq := rest\<rparr>)"
  by (simp add: closed_inv_def finite_dist_def)

lemma closed_inv_visit:
  assumes "closed_inv G s" and "getitem G cn = Inr nbrs"
    and "relax_neighbors tp cd cn pl nbrs (s\<lparr>pq := rest, visited := insert cn (visited s)\<rparr>) = Inr s1"
  shows "closed_inv G s1"
  unfolding closed_inv_def
proof (intro ballI allI impI)
  fix u v
  assume u: "u \<in> visited s1" and a: "adjacent G u v"
  from relax_neighbors_visited [OF assms(3)] u have u': "u = cn \<or> u \<in> visited s" by auto
  show "finite_dist s1 v"
  proof (cases "u = cn")
    case True
    from a True obtain adj edges where "map_of G cn = Some adj" "(v, edges) \<in> set adj" "edges \<noteq> []"
      by (auto elim: adjacentE)
    with assms(2) have "(v, edges) \<in> set nbrs" by (simp add: getitem_Inr)
    with assms(3) show ?thesis using \<open>edges \<noteq> []\<close> by (rule relax_neighbors_finite)
  next
    case False
    with u' assms(1) a have "finite_dist s v" by (auto simp: closed_inv_def)
    then have "finite_dist (s\<lparr>pq := rest, visited := insert cn (visited s)\<rparr>) v"
      by (simp add: finite_dist_def)
    with assms(3) show ?thesis by (rule relax_neighbors_finite_mono)
  qed
qed

lemma edge_inv_initial: "edge_inv G (initial_state G source)"
  by (auto simp: edge_inv_def initial_state_def dest!: map_of_SomeD)

lemma dijkstra_loop_edge_inv:
  assumes "dijkstra_loop G tp target s = Inr s'" and "edge_inv G s" and "multigraph G"
  shows "edge_inv G s'"
  using assms(1,2)
proof (rule dijkstra_loop_rule [where I = "edge_inv G"])
  fix s0 :: search_state and cd cn pl rest nbrs s1
  assume i: "edge_inv G s0" and g: "getitem G cn = Inr nbrs"
    and r: "relax_neighbors tp cd cn pl nbrs (s0\<lparr>pq := rest, visited := insert cn (visited s0)\<rparr>) = Inr s1"
  from g have m: "map_of G cn = Some nbrs" by (simp add: getitem_Inr)
  show "edge_inv G s1"
    using r
  proof (rule relax_neighbors_rule)
    show "edge_inv G (s0\<lparr>pq := rest, visited := insert cn (visited s0)\<rparr>)"
      using i by (simp add: edge_inv_def)
  next
    fix sa :: search_state and nb es k e
    assume ia: "edge_inv G sa" and nb: "(nb, es) \<in> set nbrs" and e: "(k, e) \<in> set es"
    have 1: "map_of nbrs nb = Some es" using multigraph_adj(4) [OF assms(3) m nb] .
    have "distinct (map fst es)" using multigraph_adj(3) [OF assms(3) m nb] .
    with e have 2: "map_of es k = Some e" by simp
    from ia m 1 2 show "edge_inv G (relaxed sa (cd + dijkstra_weight tp cn nb e pl) cn nb k e)"
      by (auto simp: edge_inv_def)
  qed
qed (simp_all add: edge_inv_def)

lemma walk_closed:
  assumes "walk G p" and "hd p \<in> S" and "\<And>u v. u \<in> S \<Longrightarrow> adjacent G u v \<Longrightarrow> v \<in> S"
  shows "last p \<in> S"
  using assms by (induction G p rule: walk.induct) auto

lemma tree_inv_source:
  "tree_inv source s \<Longrightarrow> distances s source = Some (Fin 0)"
  "tree_inv source s \<Longrightarrow> previous s source = Some None"
  by (simp_all add: tree_inv_def)

lemma tree_inv_pq:
  assumes "tree_inv source s" and "e \<in> set (pq s)"
  shows "0 \<le> fst e" and "\<exists>x. distances s (fst (snd e)) = Some (Fin x) \<and> x \<le> fst e"
    and "fst (snd e) = source \<or> (\<exists>u. previous s (fst (snd e)) = Some (Some u))"
  using assms unfolding tree_inv_def by blast+

lemma tree_inv_parent:
  assumes "tree_inv source s" and "previous s n = Some (Some u)"
  shows "u \<in> visited s" and "\<exists>k. previous_edge_keys s n = Some k"
  using assms unfolding tree_inv_def by blast+

lemma tree_inv_chain:
  assumes "tree_inv source s" and "n \<in> visited s"
  shows "\<exists>ps ks. chain (previous s) (previous_edge_keys s) n ps ks \<and> last ps = source
           \<and> set ps \<subseteq> visited s"
  using assms unfolding tree_inv_def by blast

lemma tree_invI:
  assumes "distances s source = Some (Fin 0)" and "previous s source = Some None"
    and "\<And>e. e \<in> set (pq s) \<Longrightarrow> 0 \<le> fst e
           \<and> (\<exists>x. distances s (fst (snd e)) = Some (Fin x) \<and> x \<le> fst e)
           \<and> (fst (snd e) = source \<or> (\<exists>u. previous s (fst (snd e)) = Some (Some u)))"
    and "\<And>n u. previous s n = Some (Some u) \<Longrightarrow>
           u \<in> visited s \<and> (\<exists>k. previous_edge_keys s n = Some k)"
    and "\<And>n. n \<in> visited s \<Longrightarrow> \<exists>ps ks.
           chain (previous s) (previous_edge_keys s) n ps ks \<and> last ps = source
           \<and> set ps \<subseteq> visited s"
  shows "tree_inv source s"
  unfolding tree_inv_def using assms by blast

lemma chain_frame:
  assumes "chain prev pek n ps ks"
    and "\<forall>x \<in> set ps. prev' x = prev x \<and> pek' x = pek x"
  shows "chain prev' pek' n ps ks"
  using assms
proof (induction rule: chain.induct)
  case (root c)
  then show ?case by (auto intro: chain.root)
next
  case (link c u k ps ks)
  then show ?case by (auto intro: chain.link)
qed

lemma tree_inv_initial: "source \<in> set (nodes G) \<Longrightarrow> tree_inv source (initial_state G source)"
  by (auto simp: tree_inv_def initial_state_def map_of_const_in dest!: map_of_SomeD)

lemma settled_inv_initial: "settled_inv (initial_state G source)"
  by (simp add: settled_inv_def initial_state_def)

lemma tree_inv_pq_chain:
  assumes "tree_inv source s" and "e \<in> set (pq s)"
  shows "\<exists>ps ks. chain (previous s) (previous_edge_keys s) (fst (snd e)) ps ks \<and> last ps = source
           \<and> set ps \<subseteq> insert (fst (snd e)) (visited s)"
proof (cases "fst (snd e) = source")
  case True
  from assms(1) have "previous s source = Some None" by (rule tree_inv_source)
  then have "chain (previous s) (previous_edge_keys s) source [source] []" by (rule chain.root)
  with True show ?thesis by (intro exI [of _ "[source]"] exI [of _ "[]"]) simp
next
  case False
  with tree_inv_pq(3) [OF assms] obtain u where u: "previous s (fst (snd e)) = Some (Some u)"
    by blast
  from tree_inv_parent [OF assms(1) u] obtain k where uv: "u \<in> visited s"
    and k: "previous_edge_keys s (fst (snd e)) = Some k"
    by blast
  from tree_inv_chain [OF assms(1) uv] obtain ps ks where
    c: "chain (previous s) (previous_edge_keys s) u ps ks" and l: "last ps = source"
    and v: "set ps \<subseteq> visited s"
    by blast
  from u k c have "chain (previous s) (previous_edge_keys s) (fst (snd e)) (fst (snd e) # ps) (k # ks)"
    by (rule chain.link)
  moreover from chain_hd [OF c] l have "last (fst (snd e) # ps) = source" by simp
  moreover from v have "set (fst (snd e) # ps) \<subseteq> insert (fst (snd e)) (visited s)" by auto
  ultimately show ?thesis by blast
qed

lemma tree_inv_pop:
  assumes "tree_inv source s" and "pq s \<noteq> []" and "heappop (pq s) = (m, rest)"
  shows "tree_inv source (s\<lparr>pq := rest\<rparr>)"
proof (rule tree_invI)
  fix e assume "e \<in> set (pq (s\<lparr>pq := rest\<rparr>))"
  with heappop_set(2) [OF assms(2,3)] have "e \<in> set (pq s)" by auto
  from tree_inv_pq [OF assms(1) this]
  show "0 \<le> fst e
      \<and> (\<exists>x. distances (s\<lparr>pq := rest\<rparr>) (fst (snd e)) = Some (Fin x) \<and> x \<le> fst e)
      \<and> (fst (snd e) = source \<or> (\<exists>u. previous (s\<lparr>pq := rest\<rparr>) (fst (snd e)) = Some (Some u)))"
    by simp
next
  fix n u assume "previous (s\<lparr>pq := rest\<rparr>) n = Some (Some u)"
  then have "previous s n = Some (Some u)" by simp
  from tree_inv_parent [OF assms(1) this]
  show "u \<in> visited (s\<lparr>pq := rest\<rparr>) \<and> (\<exists>k. previous_edge_keys (s\<lparr>pq := rest\<rparr>) n = Some k)"
    by simp
next
  fix n assume "n \<in> visited (s\<lparr>pq := rest\<rparr>)"
  then have "n \<in> visited s" by simp
  from tree_inv_chain [OF assms(1) this]
  show "\<exists>ps ks. chain (previous (s\<lparr>pq := rest\<rparr>)) (previous_edge_keys (s\<lparr>pq := rest\<rparr>)) n ps ks
      \<and> last ps = source \<and> set ps \<subseteq> visited (s\<lparr>pq := rest\<rparr>)"
    by simp
qed (use assms(1) in \<open>simp_all add: tree_inv_source\<close>)

lemma settled_inv_pop:
  assumes "settled_inv s" and "pq s \<noteq> []" and "heappop (pq s) = (m, rest)"
  shows "settled_inv (s\<lparr>pq := rest\<rparr>)"
  unfolding settled_inv_def
proof (intro ballI)
  fix n e assume "n \<in> visited (s\<lparr>pq := rest\<rparr>)" "e \<in> set (pq (s\<lparr>pq := rest\<rparr>))"
  with heappop_set(2) [OF assms(2,3)] have "n \<in> visited s" "e \<in> set (pq s)" by auto
  with assms(1) show "\<exists>x. distances (s\<lparr>pq := rest\<rparr>) n = Some (Fin x) \<and> x \<le> fst e"
    by (simp add: settled_inv_def)
qed

lemma tree_inv_visit:
  assumes t: "tree_inv source s" and ne: "pq s \<noteq> []"
    and pop: "heappop (pq s) = ((cd, cn, pl), rest)"
  shows "tree_inv source (s\<lparr>pq := rest, visited := insert cn (visited s)\<rparr>)"
    (is "tree_inv source ?s")
proof (rule tree_invI)
  note hs = heappop_set [OF ne pop]
  fix e assume "e \<in> set (pq ?s)"
  with hs(2) have "e \<in> set (pq s)" by auto
  from tree_inv_pq [OF t this]
  show "0 \<le> fst e
      \<and> (\<exists>x. distances ?s (fst (snd e)) = Some (Fin x) \<and> x \<le> fst e)
      \<and> (fst (snd e) = source \<or> (\<exists>u. previous ?s (fst (snd e)) = Some (Some u)))"
    by simp
next
  fix n u assume "previous ?s n = Some (Some u)"
  then have "previous s n = Some (Some u)" by simp
  from tree_inv_parent [OF t this]
  show "u \<in> visited ?s \<and> (\<exists>k. previous_edge_keys ?s n = Some k)"
    by simp
next
  note hs = heappop_set [OF ne pop]
  fix n assume n: "n \<in> visited ?s"
  have "\<exists>ps ks. chain (previous s) (previous_edge_keys s) n ps ks \<and> last ps = source
      \<and> set ps \<subseteq> insert cn (visited s)"
  proof (cases "n = cn")
    case True
    with tree_inv_pq_chain [OF t hs(1)] show ?thesis by simp
  next
    case False
    with n have "n \<in> visited s" by simp
    from tree_inv_chain [OF t this] show ?thesis by blast
  qed
  then show "\<exists>ps ks. chain (previous ?s) (previous_edge_keys ?s) n ps ks
      \<and> last ps = source \<and> set ps \<subseteq> visited ?s"
    by simp
qed (use t in \<open>simp_all add: tree_inv_source\<close>)

lemma bound_inv_visit:
  assumes t: "tree_inv source s" and st: "settled_inv s" and ne: "pq s \<noteq> []"
    and pop: "heappop (pq s) = ((cd, cn, pl), rest)"
  shows "bound_inv cd (s\<lparr>pq := rest, visited := insert cn (visited s)\<rparr>)"
proof -
  note hs = heappop_set [OF ne pop]
  from tree_inv_pq(1,2) [OF t hs(1)]
  have cd: "0 \<le> cd" and x: "\<exists>x. distances s cn = Some (Fin x) \<and> x \<le> cd"
    by simp_all
  have v: "\<exists>x. distances s n = Some (Fin x) \<and> x \<le> cd" if "n \<in> insert cn (visited s)" for n
  proof (cases "n = cn")
    case True
    with x show ?thesis by simp
  next
    case False
    with that have "n \<in> visited s" by simp
    with st hs(1) have "\<exists>x. distances s n = Some (Fin x) \<and> x \<le> fst (cd, cn, pl)"
      unfolding settled_inv_def by blast
    then show ?thesis by simp
  qed
  have q: "cd \<le> fst e" if "e \<in> set rest" for e
  proof -
    from that hs(2) have "e \<in> set (pq s)" by blast
    then show ?thesis by (rule heappop_least [OF ne pop])
  qed
  show ?thesis
    unfolding bound_inv_def using cd v q by simp
qed

lemma bound_settled: "bound_inv cd s \<Longrightarrow> settled_inv s"
  unfolding bound_inv_def settled_inv_def
proof (intro ballI)
  fix n e
  assume a: "0 \<le> cd \<and> (\<forall>n\<in>visited s. \<exists>x. distances s n = Some (Fin x) \<and> x \<le> cd)
      \<and> (\<forall>e\<in>set (pq s). cd \<le> fst e)" and n: "n \<in> visited s" and e: "e \<in> set (pq s)"
  from a n obtain x where "distances s n = Some (Fin x)" "x \<le> cd" by blast
  moreover from a e have "cd \<le> fst e" by blast
  ultimately show "\<exists>x. distances s n = Some (Fin x) \<and> x \<le> fst e" by auto
qed

lemma dijkstra_weight_nonneg:
  "0 \<le> tp \<Longrightarrow> 0 \<le> weight e \<Longrightarrow> 0 \<le> dijkstra_weight tp u v e pl"
  by (simp add: dijkstra_weight_def Let_def)

lemma nonneg_weights_edge:
  assumes "nonneg_weights G" and "map_of G u = Some adj" and "(v, edges) \<in> set adj"
    and "(k, e) \<in> set edges"
  shows "0 \<le> weight e"
proof -
  from assms(2) have "(u, adj) \<in> set G" by (rule map_of_SomeD)
  with assms(1,3,4) show ?thesis unfolding nonneg_weights_def by fastforce
qed

lemma bound_inv_not_visited:
  assumes "bound_inv cd s" and "0 \<le> w" and "distances s nb = Some dn" and "dist_less (cd + w) dn"
  shows "nb \<notin> visited s"
proof
  assume "nb \<in> visited s"
  with assms(1) obtain x where "distances s nb = Some (Fin x)" "x \<le> cd"
    unfolding bound_inv_def by blast
  with assms(2,3,4) show False by auto
qed

lemma tree_inv_relaxed:
  assumes t: "tree_inv source s" and b: "bound_inv cd s" and cn: "cn \<in> visited s"
    and w: "0 \<le> w" and dn: "distances s nb = Some dn" and less: "dist_less (cd + w) dn"
  shows "tree_inv source (relaxed s (cd + w) cn nb k e)" (is "tree_inv source ?s")
proof (rule tree_invI)
  from b have cd: "0 \<le> cd" by (simp add: bound_inv_def)
  have nbs: "nb \<noteq> source"
  proof
    assume "nb = source"
    with tree_inv_source(1) [OF t] dn have "dn = Fin 0" by simp
    with less cd w show False by simp
  qed
  from nbs tree_inv_source [OF t]
  show "distances ?s source = Some (Fin 0)" "previous ?s source = Some None" by simp_all
next
  from b have cd: "0 \<le> cd" by (simp add: bound_inv_def)
  fix en assume en: "en \<in> set (pq ?s)"
  show "0 \<le> fst en
      \<and> (\<exists>x. distances ?s (fst (snd en)) = Some (Fin x) \<and> x \<le> fst en)
      \<and> (fst (snd en) = source \<or> (\<exists>u. previous ?s (fst (snd en)) = Some (Some u)))"
  proof (cases "en \<in> set (pq s)")
    case True
    note old = tree_inv_pq [OF t True]
    show ?thesis
    proof (cases "fst (snd en) = nb")
      case nb: True
      from old(2) nb dn obtain x where "dn = Fin x" "x \<le> fst en" by auto
      with less have "cd + w \<le> fst en" by simp
      with old(1) nb show ?thesis by simp
    next
      case False
      with old show ?thesis by simp
    qed
  next
    case False
    with en have "en = (cd + w, nb, Some (line e))" by (simp add: heappush_def)
    with cd w show ?thesis by simp
  qed
next
  fix n u assume p: "previous ?s n = Some (Some u)"
  show "u \<in> visited ?s \<and> (\<exists>k. previous_edge_keys ?s n = Some k)"
  proof (cases "n = nb")
    case True
    with p cn show ?thesis by simp
  next
    case False
    with p have "previous s n = Some (Some u)" by simp
    from tree_inv_parent [OF t this] False show ?thesis by simp
  qed
next
  fix n assume "n \<in> visited ?s"
  then have n: "n \<in> visited s" by simp
  from tree_inv_chain [OF t n] obtain ps ks where
    c: "chain (previous s) (previous_edge_keys s) n ps ks" and l: "last ps = source"
    and v: "set ps \<subseteq> visited s"
    by blast
  have "nb \<notin> visited s" using b w dn less by (rule bound_inv_not_visited)
  with v have "\<forall>x \<in> set ps. previous ?s x = previous s x
      \<and> previous_edge_keys ?s x = previous_edge_keys s x"
    by auto
  with c have "chain (previous ?s) (previous_edge_keys ?s) n ps ks" by (rule chain_frame)
  with l v show "\<exists>ps ks. chain (previous ?s) (previous_edge_keys ?s) n ps ks
      \<and> last ps = source \<and> set ps \<subseteq> visited ?s"
    by auto
qed

lemma bound_inv_relaxed:
  assumes b: "bound_inv cd s" and w: "0 \<le> w" and dn: "distances s nb = Some dn"
    and less: "dist_less (cd + w) dn"
  shows "bound_inv cd (relaxed s (cd + w) cn nb k e)"
proof -
  have nv: "nb \<notin> visited s" using b w dn less by (rule bound_inv_not_visited)
  from b have 1: "0 \<le> cd"
    and 2: "\<And>n. n \<in> visited s \<Longrightarrow> \<exists>x. distances s n = Some (Fin x) \<and> x \<le> cd"
    and 3: "\<And>e. e \<in> set (pq s) \<Longrightarrow> cd \<le> fst e"
    unfolding bound_inv_def by blast+
  show ?thesis
    unfolding bound_inv_def
  proof (intro conjI ballI)
    show "0 \<le> cd" by (rule 1)
  next
    fix n assume "n \<in> visited (relaxed s (cd + w) cn nb k e)"
    then have n: "n \<in> visited s" by simp
    with nv have "n \<noteq> nb" by auto
    with 2 [OF n] show "\<exists>x. distances (relaxed s (cd + w) cn nb k e) n = Some (Fin x) \<and> x \<le> cd"
      by simp
  next
    fix en assume "en \<in> set (pq (relaxed s (cd + w) cn nb k e))"
    then have "en \<in> set (pq s) \<or> en = (cd + w, nb, Some (line e))" by (auto simp: heappush_def)
    then show "cd \<le> fst en"
    proof
      assume "en \<in> set (pq s)"
      then show ?thesis by (rule 3)
    next
      assume "en = (cd + w, nb, Some (line e))"
      with w show ?thesis by simp
    qed
  qed
qed

lemma search_inv_initial:
  "source \<in> set (nodes G) \<Longrightarrow> search_inv G source (initial_state G source)"
  by (simp add: search_inv_def tree_inv_initial settled_inv_initial front_closed_initial)

lemma search_inv_visit:
  assumes i: "search_inv G source s" and ne: "pq s \<noteq> []"
    and pop: "heappop (pq s) = ((cd, cn, pl), rest)"
    and g: "getitem G cn = Inr nbrs"
    and r: "relax_neighbors tp cd cn pl nbrs (s\<lparr>pq := rest, visited := insert cn (visited s)\<rparr>) = Inr s1"
    and mg: "multigraph G" and nn: "nonneg_weights G" and tp: "0 \<le> tp"
  shows "search_inv G source s1"
proof -
  from i have t: "tree_inv source s" and st: "settled_inv s" and f: "front_inv s"
    and c: "closed_inv G s"
    by (simp_all add: search_inv_def)
  from g have m: "map_of G cn = Some nbrs" by (simp add: getitem_Inr)
  let ?J = "\<lambda>x. tree_inv source x \<and> bound_inv cd x \<and> cn \<in> visited x"
  have "?J s1"
    using r
  proof (rule relax_neighbors_rule)
    show "?J (s\<lparr>pq := rest, visited := insert cn (visited s)\<rparr>)"
      using tree_inv_visit [OF t ne pop] bound_inv_visit [OF t st ne pop] by simp
  next
    fix sa :: search_state and nb es k e dn
    assume j: "?J sa" and nb: "(nb, es) \<in> set nbrs" and e: "(k, e) \<in> set es"
      and dn: "distances sa nb = Some dn"
      and less: "dist_less (cd + dijkstra_weight tp cn nb e pl) dn"
    have "0 \<le> weight e" using nn m nb e by (rule nonneg_weights_edge)
    with tp have w: "0 \<le> dijkstra_weight tp cn nb e pl" by (rule dijkstra_weight_nonneg)
    from j have ta: "tree_inv source sa" and ba: "bound_inv cd sa" and ca: "cn \<in> visited sa"
      by simp_all
    show "?J (relaxed sa (cd + dijkstra_weight tp cn nb e pl) cn nb k e)"
      using tree_inv_relaxed [OF ta ba ca w dn less] bound_inv_relaxed [OF ba w dn less] ca
      by simp
  qed
  then have "tree_inv source s1" "settled_inv s1" by (auto dest: bound_settled)
  moreover have "front_inv s1" using f ne pop r by (rule front_inv_visit)
  moreover have "closed_inv G s1" using c g r by (rule closed_inv_visit)
  ultimately show ?thesis by (simp add: search_inv_def)
qed

lemma search_inv_pop:
  assumes i: "search_inv G source s" and ne: "pq s \<noteq> []"
    and pop: "heappop (pq s) = ((cd, cn, pl), rest)" and v: "cn \<in> visited s"
  shows "search_inv G source (s\<lparr>pq := rest\<rparr>)"
  using i tree_inv_pop [OF _ ne pop] settled_inv_pop [OF _ ne pop]
    front_inv_pop_continue [OF _ ne pop v] closed_inv_pop
  by (simp add: search_inv_def)

lemma search_inv_exhausted:
  assumes i: "search_inv G source s" and e: "pq s = []"
    and w: "walk G p" "hd p = source" "last p = target"
  shows "finite_dist s target
       \<and> (\<exists>ps ks. chain (previous s) (previous_edge_keys s) target ps ks \<and> last ps = source)"
proof -
  from i have t: "tree_inv source s" and f: "front_inv s" and c: "closed_inv G s"
    by (simp_all add: search_inv_def)
  have fv: "n \<in> visited s" if "finite_dist s n" for n
    using f that e by (auto simp: front_inv_def)
  have "last p \<in> {n. finite_dist s n}"
    using w(1)
  proof (rule walk_closed)
    show "hd p \<in> {n. finite_dist s n}"
      using tree_inv_source(1) [OF t] w(2) by (simp add: finite_dist_def)
  next
    fix u v assume "u \<in> {n. finite_dist s n}" "adjacent G u v"
    with fv c show "v \<in> {n. finite_dist s n}" by (auto simp: closed_inv_def)
  qed
  with w(3) have ft: "finite_dist s target" by simp
  from tree_inv_chain [OF t fv [OF ft]] ft show ?thesis by blast
qed

lemma search_inv_break:
  assumes i: "search_inv G source s" and ne: "pq s \<noteq> []"
    and pop: "heappop (pq s) = ((cd, target, pl), rest)"
  shows "finite_dist (s\<lparr>pq := rest\<rparr>) target
       \<and> (\<exists>ps ks. chain (previous (s\<lparr>pq := rest\<rparr>)) (previous_edge_keys (s\<lparr>pq := rest\<rparr>)) target ps ks
            \<and> last ps = source)"
proof -
  from i have t: "tree_inv source s" by (simp add: search_inv_def)
  note m = heappop_set(1) [OF ne pop]
  from tree_inv_pq(2) [OF t m] have "finite_dist s target" by (auto simp: finite_dist_def)
  moreover from tree_inv_pq_chain [OF t m]
  have "\<exists>ps ks. chain (previous s) (previous_edge_keys s) target ps ks \<and> last ps = source"
    by auto
  ultimately show ?thesis by (simp add: finite_dist_def)
qed

lemma dijkstra_loop_target:
  assumes "dijkstra_loop G tp target (initial_state G source) = Inr s'"
    and mg: "multigraph G" and nn: "nonneg_weights G" and tp: "0 \<le> tp"
    and src: "source \<in> set (nodes G)"
    and w: "walk G p" "hd p = source" "last p = target"
  shows "finite_dist s' target
       \<and> (\<exists>ps ks. chain (previous s') (previous_edge_keys s') target ps ks \<and> last ps = source)"
  using assms(1) search_inv_initial [OF src]
proof (rule dijkstra_loop_rule [where I = "search_inv G source"])
  fix s :: search_state
  assume "search_inv G source s" "pq s = []"
  then show "finite_dist s target
       \<and> (\<exists>ps ks. chain (previous s) (previous_edge_keys s) target ps ks \<and> last ps = source)"
    using w by (rule search_inv_exhausted)
next
  fix s :: search_state and cd pl rest
  assume "search_inv G source s" "pq s \<noteq> []" "heappop (pq s) = ((cd, target, pl), rest)"
  then show "finite_dist (s\<lparr>pq := rest\<rparr>) target
       \<and> (\<exists>ps ks. chain (previous (s\<lparr>pq := rest\<rparr>)) (previous_edge_keys (s\<lparr>pq := rest\<rparr>)) target ps ks
            \<and> last ps = source)"
    by (rule search_inv_break)
next
  fix s :: search_state and cd cn pl rest
  assume "search_inv G source s" "pq s \<noteq> []" "heappop (pq s) = ((cd, cn, pl), rest)"
    "cn \<in> visited s"
  then show "search_inv G source (s\<lparr>pq := rest\<rparr>)" by (rule search_inv_pop)
next
  fix s :: search_state and cd cn pl rest nbrs s1
  assume "search_inv G source s" "pq s \<noteq> []" "heappop (pq s) = ((cd, cn, pl), rest)"
    "getitem G cn = Inr nbrs"
    "relax_neighbors tp cd cn pl nbrs (s\<lparr>pq := rest, visited := insert cn (visited s)\<rparr>) = Inr s1"
  then show "search_inv G source s1" using mg nn tp by (rule search_inv_visit)
qed

lemma summarize_loop_succeeds:
  assumes "\<forall>i \<in> set is. \<exists>e nl. traversed_edge G pth eks i = Some e \<and> lc (pth ! (i + 1)) = Some nl"
  shows "\<exists>st'. summarize_loop G tp pth lc eks is st = Inr st'"
  using assms
proof (induction "is" arbitrary: st)
  case Nil
  then show ?case by simp
next
  case (Cons i "is")
  from Cons.prems obtain e nl where "traversed_edge G pth eks i = Some e" "lc (pth ! (i + 1)) = Some nl"
    by auto
  then have "summarize_step G tp pth lc eks i st = Inr (summary_update tp (pth ! i) (weight e) nl st)"
    unfolding summarize_step_Inr by blast
  moreover from Cons.prems have
    "\<exists>st'. summarize_loop G tp pth lc eks is (summary_update tp (pth ! i) (weight e) nl st) = Inr st'"
    by (intro Cons.IH) simp
  ultimately show ?case by simp
qed

text \<open>
  C1: on a well-formed network with non-negative costs and a non-negative penalty, for
  every origin and destination of the network that a walk connects, the query returns a
  route whose path starts at the origin, ends at the destination and has at least one
  station.
\<close>

theorem reachable_route_endpoints:
  assumes mg: "multigraph G" and nn: "nonneg_weights G" and tp: "0 \<le> tp"
    and o: "origin \<in> set (nodes G)" and d: "destination \<in> set (nodes G)"
    and w: "walk G p" "hd p = origin" "last p = destination"
  shows "\<exists>r. find_fastest_route G origin destination tp = Some (Inr (Some r))
           \<and> hd (path r) = origin \<and> last (path r) = destination \<and> 1 \<le> length (path r)"
proof -
  from dijkstra_loop_succeeds [OF mg keys_inv_initial [OF o]]
  obtain s where s: "dijkstra_loop G tp destination (initial_state G origin) = Inr s"
    by blast
  from dijkstra_loop_target [OF s mg nn tp o w] obtain x ps ks where
    x: "distances s destination = Some (Fin x)" and
    c: "chain (previous s) (previous_edge_keys s) destination ps ks" and l: "last ps = origin"
    by (auto simp: finite_dist_def)
  let ?pth = "rev ps" and ?eks = "rev ks" and ?lc = "previous_lines s"
  from chain_reconstruct [OF c, of "[]" "[]"]
  have "reconstruct (previous s) (previous_edge_keys s) (Some destination) [] [] = Some (Inr (ps, ks))"
    by simp
  with s x have cfp: "custom_fastest_path G tp origin destination = Some (Inr (?pth, ?lc, ?eks))"
    by (simp add: custom_fastest_path_def)
  have len: "length ps = length ks + 1" using c by (rule chain_length)
  have ei: "edge_inv G s" using s edge_inv_initial mg by (rule dijkstra_loop_edge_inv)
  have li: "lines_inv s" using s lines_inv_initial by (rule dijkstra_loop_lines_inv)
  have ok: "\<exists>e nl. traversed_edge G ?pth ?eks i = Some e \<and> ?lc (?pth ! (i + 1)) = Some nl"
    if "i < length ?pth - 1" for i
  proof -
    from that len have i: "i < length ks" by simp
    from chain_rev_nth [OF c i] have
      p: "previous s (?pth ! (i + 1)) = Some (Some (?pth ! i))" and
      k: "previous_edge_keys s (?pth ! (i + 1)) = Some (?eks ! i)"
      by simp_all
    from ei p k obtain key adj edges e where
      "?eks ! i = Some key" "map_of G (?pth ! i) = Some adj"
      "map_of adj (?pth ! (i + 1)) = Some edges" "map_of edges key = Some e"
      unfolding edge_inv_def by fastforce
    with i len have "traversed_edge G ?pth ?eks i = Some e"
      by (simp add: traversed_edge_def)
    moreover from li p obtain ln where "?lc (?pth ! (i + 1)) = Some (Some ln)"
      unfolding lines_inv_def by blast
    ultimately show ?thesis by blast
  qed
  then have "\<exists>st. summarize_loop G tp ?pth ?lc ?eks [0 ..< length ?pth - 1] initial_summary = Inr st"
    by (intro summarize_loop_succeeds) simp
  then obtain st where
    st: "summarize_loop G tp ?pth ?lc ?eks [0 ..< length ?pth - 1] initial_summary = Inr st"
    by blast
  from chain_hd [OF c] have ne: "ps \<noteq> []" and h: "hd ps = destination" by simp_all
  let ?r = "\<lparr>path = ?pth, lines_used = acc_lines_used st, transfers = acc_transfers st,
             num_transfers = length (acc_transfers st), total_stations = length ?pth,
             total_time = acc_total_time st,
             travel_time = acc_total_time st - int (length (acc_transfers st)) * tp,
             transfer_time = int (length (acc_transfers st)) * tp,
             segments = update_last (\<lambda>g. g\<lparr>to_station := Some (last ?pth)\<rparr>) (acc_segments st)\<rparr>"
  from ne have "make_route tp ?pth st = Inr ?r" by (simp add: make_route_def)
  with cfp st have "find_fastest_route G origin destination tp = Some (Inr (Some ?r))"
    by (simp add: find_fastest_route_def catch_no_path_def)
  moreover have "hd (path ?r) = origin" using ne l by (simp add: hd_rev)
  moreover have "last (path ?r) = destination" using ne h by (simp add: last_rev)
  moreover have "1 \<le> length (path ?r)" using ne by (cases ps) simp_all
  ultimately show ?thesis by blast
qed

theorem reachable_route_endpoints_witness:
  "multigraph two_line_network \<and> nonneg_weights two_line_network \<and> (0::int) \<le> 900
   \<and> ''A'' \<in> set (nodes two_line_network) \<and> ''E'' \<in> set (nodes two_line_network)
   \<and> walk two_line_network [''A'', ''B'', ''C'', ''D'', ''E'']
   \<and> hd [''A'', ''B'', ''C'', ''D'', ''E''] = ''A'' \<and> last [''A'', ''B'', ''C'', ''D'', ''E''] = ''E''
   \<and> (\<exists>r. find_fastest_route two_line_network ''A'' ''E'' 900 = Some (Inr (Some r))
          \<and> hd (path r) = ''A'' \<and> last (path r) = ''E'' \<and> 1 \<le> length (path r))"
proof -
  have g: "multigraph two_line_network"
    by (simp add: multigraph_def two_line_network_def nodes_def)
  have n: "nonneg_weights two_line_network"
    by (simp add: nonneg_weights_def two_line_network_def on_line_def)
  have a: "''A'' \<in> set (nodes two_line_network)" and e: "''E'' \<in> set (nodes two_line_network)"
    by (simp_all add: nodes_def two_line_network_def)
  have w: "walk two_line_network [''A'', ''B'', ''C'', ''D'', ''E'']"
    by (simp add: adjacent_def two_line_network_def nodes_def)
  have p: "(0::int) \<le> 900" by simp
  from reachable_route_endpoints [OF g n p a e w] g n a e w show ?thesis by simp
qed

section \<open>The queue never compares lines\<close>

text \<open>
  The invariant holds initially and is kept by every pop and every push of the search, so
  the least tuple of the heap is always decided by distance and station.
\<close>

lemma distinct_map_remove1: "distinct (map f xs) \<Longrightarrow> distinct (map f (remove1 x xs))"
proof (induction xs)
  case Nil
  then show ?case by simp
next
  case (Cons a xs)
  have "set (remove1 x xs) \<subseteq> set xs" by (rule set_remove1_subset)
  with Cons show ?case by auto
qed

lemma heap_keys_initial: "heap_keys_inv (initial_state G source)"
  by (simp add: heap_keys_inv_def initial_state_def)

lemma heap_keys_pop:
  assumes "heap_keys_inv s" and "pq s \<noteq> []" and "heappop (pq s) = (m, rest)"
  shows "heap_keys_inv (s\<lparr>pq := rest, visited := V\<rparr>)"
proof -
  from assms(3) have r: "rest = remove1 m (pq s)" by (auto simp: heappop_def Let_def)
  from assms(1) have "distinct (map entry_key rest)"
    unfolding r heap_keys_inv_def by (blast intro: distinct_map_remove1)
  moreover have "set rest \<subseteq> set (pq s)" using heappop_set(2) [OF assms(2,3)] .
  ultimately show ?thesis using assms(1) unfolding heap_keys_inv_def by auto
qed

lemma heap_keys_relaxed:
  assumes h: "heap_keys_inv s" and dn: "distances s nb = Some dn" and less: "dist_less d dn"
  shows "heap_keys_inv (relaxed s d cn nb k e)"
proof -
  have below: "d < fst en" if "en \<in> set (pq s)" "fst (snd en) = nb" for en
  proof -
    from h that obtain x where "distances s nb = Some (Fin x)" "x \<le> fst en"
      unfolding heap_keys_inv_def by blast
    with dn less show ?thesis by auto
  qed
  then have "(d, nb) \<notin> entry_key ` set (pq s)"
    by (fastforce simp: entry_key_def)
  with h have "distinct (map entry_key (pq (relaxed s d cn nb k e)))"
    by (simp add: heap_keys_inv_def heappush_def entry_key_def)
  moreover have "\<exists>x. distances (relaxed s d cn nb k e) (fst (snd en)) = Some (Fin x) \<and> x \<le> fst en"
    if "en \<in> set (pq (relaxed s d cn nb k e))" for en
  proof (cases "fst (snd en) = nb")
    case True
    from that have "en \<in> set (pq s) \<or> en = (d, nb, Some (line e))" by (auto simp: heappush_def)
    then have "d \<le> fst en"
    proof
      assume "en \<in> set (pq s)"
      from below [OF this True] show ?thesis by simp
    next
      assume "en = (d, nb, Some (line e))"
      then show ?thesis by simp
    qed
    with True show ?thesis by simp
  next
    case False
    with that have "en \<in> set (pq s)" by (auto simp: heappush_def)
    with h False show ?thesis unfolding heap_keys_inv_def by auto
  qed
  ultimately show ?thesis unfolding heap_keys_inv_def by blast
qed

lemma dijkstra_loop_heap_keys:
  assumes "dijkstra_loop G tp target s = Inr s'" and "heap_keys_inv s"
  shows "heap_keys_inv s'"
  using assms
proof (rule dijkstra_loop_rule [where I = heap_keys_inv])
  fix s0 :: search_state and cd cn pl rest
  assume "heap_keys_inv s0" "pq s0 \<noteq> []" "heappop (pq s0) = ((cd, cn, pl), rest)"
  from heap_keys_pop [OF this, of "visited s0"] show "heap_keys_inv (s0\<lparr>pq := rest\<rparr>)" by simp
  then show "heap_keys_inv (s0\<lparr>pq := rest\<rparr>)" .
next
  fix s0 :: search_state and cd cn pl rest nbrs s1
  assume i: "heap_keys_inv s0" "pq s0 \<noteq> []" "heappop (pq s0) = ((cd, cn, pl), rest)"
    and r: "relax_neighbors tp cd cn pl nbrs (s0\<lparr>pq := rest, visited := insert cn (visited s0)\<rparr>) = Inr s1"
  show "heap_keys_inv s1"
    using r
  proof (rule relax_neighbors_rule)
    show "heap_keys_inv (s0\<lparr>pq := rest, visited := insert cn (visited s0)\<rparr>)"
      using i by (rule heap_keys_pop)
  next
    fix sa :: search_state and nb k e dn
    assume "heap_keys_inv sa" "distances sa nb = Some dn"
      "dist_less (cd + dijkstra_weight tp cn nb e pl) dn"
    then show "heap_keys_inv (relaxed sa (cd + dijkstra_weight tp cn nb e pl) cn nb k e)"
      by (rule heap_keys_relaxed)
  qed
qed

section \<open>Negative costs\<close>

lemma reconstruct_cycle_aux:
  assumes "reconstruct prev pek cur acc kacc = Some y"
  shows "\<forall>S. (\<forall>c \<in> S. \<exists>u k. prev c = Some (Some u) \<and> pek c = Some k \<and> u \<in> S)
            \<longrightarrow> cur \<notin> Some ` S"
proof (rule reconstruct.raw_induct [where P = "\<lambda>prev pek cur acc kacc y.
     \<forall>S. (\<forall>c \<in> S. \<exists>u k. prev c = Some (Some u) \<and> pek c = Some k \<and> u \<in> S)
            \<longrightarrow> cur \<notin> Some ` S", OF _ assms], goal_cases)
  case (1 rc prev pek current pth edge_keys y)
  note IH = 1(1) and eq = 1(2)
  show ?case
  proof (intro allI impI notI)
    fix S
    assume S: "\<forall>c \<in> S. \<exists>u k. prev c = Some (Some u) \<and> pek c = Some k \<and> u \<in> S"
      and "current \<in> Some ` S"
    then obtain c where c: "current = Some c" "c \<in> S" by auto
    with S obtain u k where u: "prev c = Some (Some u)" "pek c = Some k" "u \<in> S" by blast
    with c eq have "rc prev pek (Some u) (pth @ [c]) (edge_keys @ [k]) = Some y" by simp
    from IH [OF this] S u(3) show False by blast
  qed
qed

lemma reconstruct_cycle:
  assumes "\<forall>c \<in> S. \<exists>u k. prev c = Some (Some u) \<and> pek c = Some k \<and> u \<in> S" and "c \<in> S"
  shows "reconstruct prev pek (Some c) acc kacc = None"
proof (cases "reconstruct prev pek (Some c) acc kacc")
  case None
  then show ?thesis .
next
  case (Some y)
  from reconstruct_cycle_aux [OF Some] assms show ?thesis by blast
qed

lemma negative_cost_run:
  "\<exists>s. dijkstra_loop negative_cost_network 0 ''C'' (initial_state negative_cost_network ''A'') = Inr s
     \<and> distances s ''C'' = Some (Fin 0)
     \<and> previous s ''A'' = Some (Some ''B'') \<and> previous s ''B'' = Some (Some ''A'')
     \<and> previous s ''C'' = Some (Some ''B'')
     \<and> previous_edge_keys s ''A'' = Some (Some 0) \<and> previous_edge_keys s ''B'' = Some (Some 0)
     \<and> previous_edge_keys s ''C'' = Some (Some 0)"
  by (simp add: dijkstra_loop.simps initial_state_def negative_cost_network_def on_line_def
      nodes_def heappop_def heappush_def getitem_def dijkstra_weight_def entry_key_def Let_def)

text \<open>
  The condition on the costs cannot be dropped: on the chain with a segment of cost -1
  station A is relaxed again after it was settled, the parent pointers of A and B point
  at each other, and the reconstruction loop of the query from A to C never ends.
\<close>

theorem negative_cost_never_returns:
  "multigraph negative_cost_network
   \<and> walk negative_cost_network [''A'', ''B'', ''C'']
   \<and> find_fastest_route negative_cost_network ''A'' ''C'' 0 = None"
proof -
  from negative_cost_run obtain s where
    s: "dijkstra_loop negative_cost_network 0 ''C'' (initial_state negative_cost_network ''A'') = Inr s"
    and d: "distances s ''C'' = Some (Fin 0)"
    and p: "previous s ''A'' = Some (Some ''B'')" "previous s ''B'' = Some (Some ''A'')"
      "previous s ''C'' = Some (Some ''B'')"
      "previous_edge_keys s ''A'' = Some (Some 0)" "previous_edge_keys s ''B'' = Some (Some 0)"
      "previous_edge_keys s ''C'' = Some (Some 0)"
    by blast
  from p have "\<forall>c \<in> {''A'', ''B'', ''C''}. \<exists>u k. previous s c = Some (Some u)
      \<and> previous_edge_keys s c = Some k \<and> u \<in> {''A'', ''B'', ''C''}"
    by simp
  then have "reconstruct (previous s) (previous_edge_keys s) (Some ''C'') [] [] = None"
    by (rule reconstruct_cycle) simp
  with s d have "custom_fastest_path negative_cost_network 0 ''A'' ''C'' = None"
    by (simp add: custom_fastest_path_def)
  then have "find_fastest_route negative_cost_network ''A'' ''C'' 0 = None"
    by (simp add: find_fastest_route_def)
  moreover have "multigraph negative_cost_network"
    by (simp add: multigraph_def negative_cost_network_def nodes_def)
  moreover have "walk negative_cost_network [''A'', ''B'', ''C'']"
    by (simp add: adjacent_def negative_cost_network_def nodes_def)
  ultimately show ?thesis by simp
qed

end
